theory Spec2Isabelle
  imports Complex_Main "HOL-Library.Sublist" "HOL-Library.Multiset"
begin

section \<open>Data model (models/schemas.py)\<close>

text \<open>
  Python \<open>float\<close> fields are modelled by exact reals, \<open>int\<close> fields by \<open>int\<close>,
  \<open>Optional\<close> fields by \<open>option\<close>, \<open>Literal\<close> string enumerations by datatypes.
  A Python \<open>str\<close> is a \<open>string\<close> whose characters are the code points below 256.
\<close>

datatype source = Zillow | Redfin | Realtor

record Listing =
  id :: string
  source :: source
  url :: string
  address :: string
  city :: string
  state :: string
  zip_code :: string
  price :: int
  bedrooms :: int
  bathrooms :: real
  sqft :: int
  property_type :: string
  description :: string
  images :: "string list"
  listing_date :: "string option"
  days_on_market :: "int option"

section \<open>String operations of the Python runtime used by the collector\<close>

text \<open>\<open>str.isspace\<close> on one code point below 256.\<close>

definition is_space :: "char \<Rightarrow> bool" where
  "is_space c = ((of_char c :: nat) \<in> {9, 10, 11, 12, 13, 28, 29, 30, 31, 32, 133, 160})"

text \<open>\<open>str.lower\<close> on one code point below 256: A-Z and the Latin-1 capitals.\<close>

definition lower_char :: "char \<Rightarrow> char" where
  "lower_char c =
     (let n = (of_char c :: nat)
      in if (65 \<le> n \<and> n \<le> 90) \<or> (192 \<le> n \<and> n \<le> 222 \<and> n \<noteq> 215)
         then char_of (n + 32) else c)"

definition lower :: "string \<Rightarrow> string" where
  "lower s = map lower_char s"

text \<open>\<open>str.strip()\<close>: leading and trailing whitespace removed.\<close>

definition strip :: "string \<Rightarrow> string" where
  "strip s = rev (dropWhile is_space (rev (dropWhile is_space s)))"

text \<open>
  \<open>s.replace(old, new)\<close>: the non-overlapping occurrences of \<open>old\<close>, found from the
  left, are replaced; an empty \<open>old\<close> matches before every character and at the end.
\<close>

function replace :: "string \<Rightarrow> string \<Rightarrow> string \<Rightarrow> string" where
  "replace old new [] = (if old = [] then new else [])"
| "replace old new (c # cs) =
     (if old = [] then new @ c # replace old new cs
      else if prefix old (c # cs) then new @ replace old new (drop (length old) (c # cs))
      else c # replace old new cs)"
  by pat_completeness auto
termination
  by (relation "measure (\<lambda>(old, new, s). length s)") (auto simp: neq_Nil_conv)

text \<open>
  \<open>s.split()\<close> without arguments: the maximal runs of non-whitespace characters.
  The first argument is the word being read.
\<close>

fun split_from :: "string \<Rightarrow> string \<Rightarrow> string list" where
  "split_from cur [] = (if cur = [] then [] else [cur])"
| "split_from cur (c # cs) =
     (if is_space c then (if cur = [] then split_from [] cs else cur # split_from [] cs)
      else split_from (cur @ [c]) cs)"

definition split :: "string \<Rightarrow> string list" where
  "split s = split_from [] s"

text \<open>\<open>sep.join(ws)\<close>.\<close>

fun join :: "string \<Rightarrow> string list \<Rightarrow> string" where
  "join sep [] = []"
| "join sep [w] = w"
| "join sep (w # ws) = w @ sep @ join sep ws"

section \<open>Candidate Collector (services/scraper\_orchestrator.py)\<close>

text \<open>\<open>ScraperOrchestrator._normalize_address\<close>.\<close>

definition normalize_address :: "string \<Rightarrow> string" where
  "normalize_address addr =
     (let normalized = strip (lower addr);
          normalized = replace ''street'' ''st'' normalized;
          normalized = replace ''avenue'' ''ave'' normalized;
          normalized = replace ''boulevard'' ''blvd'' normalized;
          normalized = replace ''drive'' ''dr'' normalized;
          normalized = replace ''road'' ''rd'' normalized;
          normalized = replace ''.'' '''' normalized;
          normalized = replace '','' '''' normalized
      in join '' '' (split normalized))"

text \<open>
  \<open>ScraperOrchestrator._deduplicate_listings\<close>: the loop threads the set
  \<open>seen_addresses\<close> and the list \<open>unique_listings\<close>.
\<close>

fun dedup_loop :: "string set \<Rightarrow> Listing list \<Rightarrow> Listing list \<Rightarrow> Listing list" where
  "dedup_loop seen_addresses unique_listings [] = unique_listings"
| "dedup_loop seen_addresses unique_listings (listing # rest) =
     (let normalized_address = normalize_address (address listing)
      in if normalized_address \<notin> seen_addresses
         then dedup_loop (insert normalized_address seen_addresses)
                (unique_listings @ [listing]) rest
         else dedup_loop seen_addresses unique_listings rest)"

definition deduplicate_listings :: "Listing list \<Rightarrow> Listing list" where
  "deduplicate_listings listings = dedup_loop {} [] listings"

text \<open>
  The value one adapter's \<open>search\<close> task leaves in \<open>asyncio.gather(..., return_exceptions=True)\<close>:
  an exception, a list of listings, or some other object.
\<close>

datatype adapter_result = Raised string | Listings "Listing list" | Other

text \<open>\<open>ScraperOrchestrator.search_all_platforms\<close>, from the settled adapter results.\<close>

fun combine_results :: "adapter_result list \<Rightarrow> Listing list" where
  "combine_results [] = []"
| "combine_results (Raised e # rs) = combine_results rs"
| "combine_results (Listings ls # rs) = ls @ combine_results rs"
| "combine_results (Other # rs) = combine_results rs"

definition search_all_platforms :: "adapter_result list \<Rightarrow> Listing list" where
  "search_all_platforms results = deduplicate_listings (combine_results results)"

section \<open>Reports and sessions (models/schemas.py, api/search.py)\<close>

record UserPreferences =
  price_min :: "int option"
  price_max :: "int option"
  bedrooms_min :: "int option"
  bedrooms_max :: "int option"
  bathrooms_min :: "real option"
  bathrooms_max :: "real option"
  sqft_min :: "int option"
  sqft_max :: "int option"
  location :: "string option"
  property_types :: "string list option"
  must_have_features :: "string list option"
  deal_breakers :: "string list option"
  lifestyle_priorities :: "string list option"

record EvaluationReport =
  listing_id :: string
  preference_match_score :: real
  crime_score :: "real option"
  school_score :: "real option"
  walkability_score :: "real option"
  affordability_score :: "real option"
  similar_evaluations :: "string list"
  strengths :: "string list"
  concerns :: "string list"
  additional_notes :: "string option"

record ArgumentReport =
  arg_listing_id :: string
  pro_arguments :: "string list"
  con_arguments :: "string list"

datatype recommendation = StrongBuy | Consider | Pass

record FinalReport =
  listing :: Listing
  evaluation :: EvaluationReport
  arguments :: ArgumentReport
  final_score :: real
  executive_summary :: string
  recommendation :: recommendation

text \<open>The chat session as far as the pipeline reads it (the message history is not read).\<close>

record ChatSession =
  session_id :: string
  preferences :: "UserPreferences option"
  preferences_complete :: bool

datatype status = Pending | Scraping | Evaluating | Complete | Error

text \<open>
  One entry of the dictionary \<open>search_sessions\<close>. The keys \<open>evaluated_listings\<close>,
  \<open>argued_listings\<close> and \<open>final_reports\<close> are absent (\<open>None\<close>) until they are assigned.
\<close>

record SearchSession =
  status :: status
  chat_session_id :: string
  message :: string
  progress :: real
  listings :: "Listing list"
  evaluated_listings :: "(Listing \<times> EvaluationReport) list option"
  argued_listings :: "(Listing \<times> EvaluationReport \<times> ArgumentReport) list option"
  final_reports :: "FinalReport list option"

text \<open>The session that \<open>start_search\<close> stores before it launches the background task.\<close>

definition start_search :: "string \<Rightarrow> SearchSession" where
  "start_search cid =
     \<lparr>status = Pending, chat_session_id = cid, message = ''Initializing search...'',
      progress = 0, listings = [], evaluated_listings = None, argued_listings = None,
      final_reports = None\<rparr>"

text \<open>
  One assignment \<open>search_sessions[session_id][key] = value\<close>. The pipeline is modelled
  by the list of assignments it performs, in program order; a status read sees the session
  after some prefix of them.
\<close>

datatype session_write =
    SetStatus status
  | SetMessage string
  | SetProgress real
  | SetListings "Listing list"
  | SetEvaluated "(Listing \<times> EvaluationReport) list"
  | SetArgued "(Listing \<times> EvaluationReport \<times> ArgumentReport) list"
  | SetFinal "FinalReport list"

fun apply_write :: "SearchSession \<Rightarrow> session_write \<Rightarrow> SearchSession" where
  "apply_write s (SetStatus v) = s\<lparr>status := v\<rparr>"
| "apply_write s (SetMessage v) = s\<lparr>message := v\<rparr>"
| "apply_write s (SetProgress v) = s\<lparr>progress := v\<rparr>"
| "apply_write s (SetListings v) = s\<lparr>listings := v\<rparr>"
| "apply_write s (SetEvaluated v) = s\<lparr>evaluated_listings := Some v\<rparr>"
| "apply_write s (SetArgued v) = s\<lparr>argued_listings := Some v\<rparr>"
| "apply_write s (SetFinal v) = s\<lparr>final_reports := Some v\<rparr>"

definition apply_writes :: "SearchSession \<Rightarrow> session_write list \<Rightarrow> SearchSession" where
  "apply_writes s ws = foldl apply_write s ws"

text \<open>The successive sessions a poller can read: before any write, and after each one.\<close>

fun observable :: "SearchSession \<Rightarrow> session_write list \<Rightarrow> SearchSession list" where
  "observable s [] = [s]"
| "observable s (w # ws) = s # observable (apply_write s w) ws"

text \<open>
  \<open>sorted(xs, key=..., reverse=True)\<close> and \<open>xs.sort(key=..., reverse=True)\<close>: a stable
  sort into descending key order, here by insertion from the right.
\<close>

fun insort_desc :: "('a \<Rightarrow> real) \<Rightarrow> 'a \<Rightarrow> 'a list \<Rightarrow> 'a list" where
  "insort_desc k x [] = [x]"
| "insort_desc k x (y # ys) = (if k y \<le> k x then x # y # ys else y # insort_desc k x ys)"

definition sorted_desc :: "('a \<Rightarrow> real) \<Rightarrow> 'a list \<Rightarrow> 'a list" where
  "sorted_desc k xs = foldr (insort_desc k) xs []"

text \<open>\<open>enumerate(xs)\<close>.\<close>

definition enumerate_py :: "'a list \<Rightarrow> (nat \<times> 'a) list" where
  "enumerate_py xs = zip [0..<length xs] xs"

text \<open>
  The three enrichment loops of \<open>run_search_pipeline\<close>. A collaborator call that raises
  an \<open>Exception\<close> is \<open>None\<close>; the \<open>except\<close> clause of the loop body drops the item and the
  loop goes on. Each loop returns the collected items and the progress assignments made.
\<close>

fun evaluate_loop ::
  "(Listing \<Rightarrow> UserPreferences \<Rightarrow> EvaluationReport option) \<Rightarrow> UserPreferences \<Rightarrow> nat \<Rightarrow>
   (nat \<times> Listing) list \<Rightarrow> (Listing \<times> EvaluationReport) list \<times> session_write list" where
  "evaluate_loop evaluate_listing prefs n [] = ([], [])"
| "evaluate_loop evaluate_listing prefs n ((i, l) # rest) =
     (let (evaluated, ws) = evaluate_loop evaluate_listing prefs n rest
      in case evaluate_listing l prefs of
           None \<Rightarrow> (evaluated, ws)
         | Some ev \<Rightarrow>
             ((l, ev) # evaluated,
              SetProgress (50 + 20 * (real i + 1) / real n) # ws))"

fun argue_loop ::
  "(Listing \<Rightarrow> EvaluationReport \<Rightarrow> UserPreferences \<Rightarrow> ArgumentReport option) \<Rightarrow>
   UserPreferences \<Rightarrow> nat \<Rightarrow> (nat \<times> Listing \<times> EvaluationReport) list \<Rightarrow>
   (Listing \<times> EvaluationReport \<times> ArgumentReport) list \<times> session_write list" where
  "argue_loop generate_arguments prefs n [] = ([], [])"
| "argue_loop generate_arguments prefs n ((i, l, e) # rest) =
     (let (argued, ws) = argue_loop generate_arguments prefs n rest
      in case generate_arguments l e prefs of
           None \<Rightarrow> (argued, ws)
         | Some args \<Rightarrow>
             ((l, e, args) # argued,
              SetProgress (70 + 15 * (real i + 1) / real n) # ws))"

fun compile_loop ::
  "(Listing \<Rightarrow> EvaluationReport \<Rightarrow> ArgumentReport \<Rightarrow> UserPreferences \<Rightarrow> FinalReport option) \<Rightarrow>
   UserPreferences \<Rightarrow> nat \<Rightarrow> (nat \<times> Listing \<times> EvaluationReport \<times> ArgumentReport) list \<Rightarrow>
   FinalReport list \<times> session_write list" where
  "compile_loop compile_report prefs n [] = ([], [])"
| "compile_loop compile_report prefs n ((i, l, e, a) # rest) =
     (let (reports, ws) = compile_loop compile_report prefs n rest
      in case compile_report l e a prefs of
           None \<Rightarrow> (reports, ws)
         | Some final_report \<Rightarrow>
             (final_report # reports,
              SetProgress (85 + 10 * (real i + 1) / real n) # ws))"

text \<open>
  \<open>run_search_pipeline\<close>: the assignments to the session, in order. The collaborators
  are parameters: \<open>scrape\<close> gives the settled results of the adapters' \<open>search\<close> calls.
  Every collaborator call that can raise sits in one of the three guarded loops, and
  \<open>search_all_platforms\<close> gathers with \<open>return_exceptions=True\<close>, so the outer
  \<open>except\<close> clause is not reached; the two early returns are the runs that end in
  status \<open>error\<close>.
\<close>

definition run_search_pipeline ::
  "(string \<rightharpoonup> ChatSession) \<Rightarrow>
   (UserPreferences \<Rightarrow> adapter_result list) \<Rightarrow>
   (Listing \<Rightarrow> UserPreferences \<Rightarrow> EvaluationReport option) \<Rightarrow>
   (Listing \<Rightarrow> EvaluationReport \<Rightarrow> UserPreferences \<Rightarrow> ArgumentReport option) \<Rightarrow>
   (Listing \<Rightarrow> EvaluationReport \<Rightarrow> ArgumentReport \<Rightarrow> UserPreferences \<Rightarrow> FinalReport option) \<Rightarrow>
   string \<Rightarrow> session_write list" where
  "run_search_pipeline chat_sessions scrape evaluate_listing generate_arguments compile_report cid =
     (case chat_sessions cid of
        None \<Rightarrow> [SetStatus Error, SetMessage ''Chat session not found'']
      | Some chat_session \<Rightarrow>
         (case preferences chat_session of
            None \<Rightarrow> [SetStatus Error, SetMessage ''No preferences found'']
          | Some prefs \<Rightarrow>
             (let ls = search_all_platforms (scrape prefs);
                  (evaluated, ws1) =
                     evaluate_loop evaluate_listing prefs (length ls) (enumerate_py ls);
                  (argued, ws2) =
                     argue_loop generate_arguments prefs (length evaluated) (enumerate_py evaluated);
                  (reports, ws3) =
                     compile_loop compile_report prefs (length argued) (enumerate_py argued);
                  reports = sorted_desc final_score reports
              in [SetStatus Scraping, SetMessage ''Searching real estate platforms...'',
                  SetProgress 20,
                  SetStatus Evaluating, SetMessage ''Evaluating listings...'', SetProgress 50]
                 @ ws1 @
                 [SetStatus Evaluating, SetMessage ''Generating pro/con arguments...'',
                  SetProgress 70]
                 @ ws2 @
                 [SetStatus Evaluating, SetMessage ''Compiling final reports...'',
                  SetProgress 85]
                 @ ws3 @
                 [SetStatus Complete, SetMessage ''Analysis complete'', SetProgress 100,
                  SetListings ls, SetEvaluated evaluated, SetArgued argued,
                  SetFinal reports])))"

text \<open>\<open>get_search_status\<close>: the projection of a stored session, 404 for an unknown id.\<close>

record SearchStatusResponse =
  resp_status :: status
  resp_progress :: real
  resp_message :: string
  listings_found :: nat
  listings_evaluated :: nat

datatype http_error = NotFound string | BadRequest string

definition get_search_status ::
  "(string \<rightharpoonup> SearchSession) \<Rightarrow> string \<Rightarrow> http_error + SearchStatusResponse" where
  "get_search_status search_sessions sid =
     (case search_sessions sid of
        None \<Rightarrow> Inl (NotFound ''Search session not found'')
      | Some session \<Rightarrow>
          Inr \<lparr>resp_status = status session, resp_progress = progress session,
               resp_message = message session,
               listings_found = length (listings session),
               listings_evaluated =
                 length (case evaluated_listings session of None \<Rightarrow> [] | Some es \<Rightarrow> es)\<rparr>)"

text \<open>The values a list of assignments writes to \<open>progress\<close> and to \<open>status\<close>, in order.\<close>

fun progress_values :: "session_write list \<Rightarrow> real list" where
  "progress_values [] = []"
| "progress_values (SetProgress v # ws) = v # progress_values ws"
| "progress_values (w # ws) = progress_values ws"

fun status_values :: "session_write list \<Rightarrow> status list" where
  "status_values [] = []"
| "status_values (SetStatus v # ws) = v # status_values ws"
| "status_values (w # ws) = status_values ws"

text \<open>
  The transitions of the session state machine: a status stays, moves to the next one of
  \<open>pending, scraping, evaluating, complete\<close>, or jumps to \<open>error\<close>, which is never left.
\<close>

fun status_step :: "status \<Rightarrow> status \<Rightarrow> bool" where
  "status_step Pending b = (b = Pending \<or> b = Scraping \<or> b = Error)"
| "status_step Scraping b = (b = Scraping \<or> b = Evaluating \<or> b = Error)"
| "status_step Evaluating b = (b = Evaluating \<or> b = Complete \<or> b = Error)"
| "status_step Complete b = (b = Complete \<or> b = Error)"
| "status_step Error b = (b = Error)"

text \<open>
  A listing reaches the final reports when its evaluator call, then its arguer call, then
  its compiler call all return.
\<close>

definition survives ::
  "(Listing \<Rightarrow> UserPreferences \<Rightarrow> EvaluationReport option) \<Rightarrow>
   (Listing \<Rightarrow> EvaluationReport \<Rightarrow> UserPreferences \<Rightarrow> ArgumentReport option) \<Rightarrow>
   (Listing \<Rightarrow> EvaluationReport \<Rightarrow> ArgumentReport \<Rightarrow> UserPreferences \<Rightarrow> FinalReport option) \<Rightarrow>
   UserPreferences \<Rightarrow> Listing \<Rightarrow> bool" where
  "survives evaluate_listing generate_arguments compile_report prefs l =
     (case evaluate_listing l prefs of
        None \<Rightarrow> False
      | Some ev \<Rightarrow>
         (case generate_arguments l ev prefs of
            None \<Rightarrow> False
          | Some args \<Rightarrow> compile_report l ev args prefs \<noteq> None))"

text \<open>A word of a split string: non-empty, free of whitespace, with characters from \<open>A\<close>.\<close>

definition word_ok :: "char set \<Rightarrow> string \<Rightarrow> bool" where
  "word_ok A w \<longleftrightarrow> w \<noteq> [] \<and> (\<forall>c\<in>set w. \<not> is_space c) \<and> set w \<subseteq> A"

text \<open>
  The characters that normalization never touches: neither whitespace, nor a period or a
  comma, nor one of the letters of the five replaced words.
\<close>

definition kept_char :: "char \<Rightarrow> bool" where
  "kept_char c \<longleftrightarrow>
     \<not> is_space c \<and> c \<noteq> CHR ''.'' \<and> c \<noteq> CHR '','' \<and>
     c \<notin> set ''streetavenueboulevarddriveroad''"

section \<open>Feedback Learner (services/recommendation\_service.py)\<close>

datatype action = Like | Dislike

record FeedbackRequest =
  fb_listing_id :: string
  fb_action :: action
  fb_session_id :: string

datatype py_error = KeyError string | ValueError string

text \<open>
  A Python dictionary from feature names to numbers, in insertion order: an association
  list. \<open>d[k]\<close> raises \<open>KeyError\<close> for a missing key; \<open>d.get(k, default)\<close> does not.
\<close>

type_synonym py_dict = "(string \<times> real) list"

definition dict_item :: "py_dict \<Rightarrow> string \<Rightarrow> py_error + real" where
  "dict_item d k = (case map_of d k of None \<Rightarrow> Inl (KeyError k) | Some v \<Rightarrow> Inr v)"

definition dict_get :: "py_dict \<Rightarrow> string \<Rightarrow> real \<Rightarrow> real" where
  "dict_get d k dflt = (case map_of d k of None \<Rightarrow> dflt | Some v \<Rightarrow> v)"

text \<open>\<open>x or default\<close> on an optional number: \<open>None\<close> and zero are both falsy.\<close>

fun or_int :: "int option \<Rightarrow> int \<Rightarrow> int" where
  "or_int None d = d"
| "or_int (Some v) d = (if v = 0 then d else v)"

fun or_real :: "real option \<Rightarrow> real \<Rightarrow> real" where
  "or_real None d = d"
| "or_real (Some v) d = (if v = 0 then d else v)"

text \<open>\<open>RecommendationService._extract_features\<close>.\<close>

definition extract_features :: "Listing \<Rightarrow> FinalReport \<Rightarrow> py_dict" where
  "extract_features l final_report =
     [(''price'', real_of_int (price l) / 1000000),
      (''bedrooms'', real_of_int (bedrooms l)),
      (''bathrooms'', bathrooms l),
      (''sqft'', real_of_int (sqft l) / 1000),
      (''days_on_market'', real_of_int (or_int (days_on_market l) 30) / 100),
      (''preference_match'', preference_match_score (evaluation final_report)),
      (''crime_score'', or_real (crime_score (evaluation final_report)) 5),
      (''school_score'', or_real (school_score (evaluation final_report)) 5),
      (''walkability_score'', or_real (walkability_score (evaluation final_report)) 5),
      (''affordability_score'', or_real (affordability_score (evaluation final_report)) 5),
      (''final_score'', final_score final_report),
      (''pro_count'', real (length (pro_arguments (arguments final_report)))),
      (''con_count'', real (length (con_arguments (arguments final_report)))),
      (''argument_balance'',
         real_of_int (int (length (pro_arguments (arguments final_report))) -
                      int (length (con_arguments (arguments final_report))))),
      (''is_house'', if lower (property_type l) = ''house'' then 1 else 0),
      (''is_condo'', if lower (property_type l) = ''condo'' then 1 else 0),
      (''is_townhouse'', if lower (property_type l) = ''townhouse'' then 1 else 0)]"

text \<open>
  The two ChromaDB collections. A collection is modelled as the list of its entries in
  insertion order, each with its id; \<open>upsert\<close> replaces the entry with the same id or adds
  a new one, \<open>get(where={"session_id": s})\<close> returns the entries whose metadata has that
  session id, \<open>get(ids=[i])\<close> the entries with that id. The JSON document of a feedback
  entry is kept as a record (its \<open>timestamp\<close> string is never read and is left out).
\<close>

record FeedbackDocument =
  doc_session_id :: string
  doc_listing_id :: string
  doc_action :: action
  doc_features :: py_dict

record FeedbackMetadata =
  md_session_id :: string
  md_listing_id :: string
  md_action :: action
  md_price :: int
  md_bedrooms :: int
  md_bathrooms :: real
  md_sqft :: int
  md_final_score :: real

record WeightsDocument =
  wd_session_id :: string
  wd_weights :: py_dict
  wd_sample_size :: nat

record WeightsMetadata =
  wm_session_id :: string
  wm_sample_size :: nat

fun upsert :: "string \<Rightarrow> 'v \<Rightarrow> (string \<times> 'v) list \<Rightarrow> (string \<times> 'v) list" where
  "upsert k v [] = [(k, v)]"
| "upsert k v ((k', v') # rest) =
     (if k' = k then (k, v) # rest else (k', v') # upsert k v rest)"

record RecommendationService =
  feedback_collection :: "(string \<times> FeedbackDocument \<times> FeedbackMetadata) list"
  preference_weights_collection :: "(string \<times> WeightsDocument \<times> WeightsMetadata) list"

definition get_feedback ::
  "RecommendationService \<Rightarrow> string \<Rightarrow> (string \<times> FeedbackDocument \<times> FeedbackMetadata) list" where
  "get_feedback svc sid =
     filter (\<lambda>entry. md_session_id (snd (snd entry)) = sid) (feedback_collection svc)"

text \<open>
  \<open>numpy\<close> computes in IEEE doubles, whose rounding is not modelled here: the two
  functions the service calls are parameters. A result is the real number the double
  stands for; \<open>nan\<close> is \<open>None\<close>. \<open>np_std\<close> is \<open>np.std(x)\<close> and \<open>np_corrcoef\<close> is
  \<open>np.corrcoef(x, y)[0, 1]\<close>.
\<close>

record numpy =
  np_std :: "real list \<Rightarrow> real option"
  np_corrcoef :: "real list \<Rightarrow> real list \<Rightarrow> real option"

text \<open>The body of the loop of \<open>_calculate_feature_weights\<close> for one feature column.\<close>

definition feature_weight :: "numpy \<Rightarrow> real list \<Rightarrow> real list \<Rightarrow> real" where
  "feature_weight np feature_values y =
     (if np_std np feature_values = Some 0 then 0
      else (case np_corrcoef np feature_values y of
              None \<Rightarrow> 0 | Some correlation \<Rightarrow> correlation))"

text \<open>One row \<open>[fv[fname] for fname in feature_names]\<close> of the matrix \<open>X\<close>.\<close>

fun feature_row :: "py_dict \<Rightarrow> string list \<Rightarrow> py_error + real list" where
  "feature_row fv [] = Inr []"
| "feature_row fv (fname # rest) =
     (case dict_item fv fname of
        Inl e \<Rightarrow> Inl e
      | Inr v \<Rightarrow> (case feature_row fv rest of Inl e \<Rightarrow> Inl e | Inr vs \<Rightarrow> Inr (v # vs)))"

fun feature_matrix :: "py_dict list \<Rightarrow> string list \<Rightarrow> py_error + real list list" where
  "feature_matrix [] names = Inr []"
| "feature_matrix (fv # rest) names =
     (case feature_row fv names of
        Inl e \<Rightarrow> Inl e
      | Inr row \<Rightarrow> (case feature_matrix rest names of Inl e \<Rightarrow> Inl e | Inr rows \<Rightarrow> Inr (row # rows)))"

text \<open>\<open>RecommendationService._calculate_feature_weights\<close>.\<close>

definition calculate_feature_weights ::
  "numpy \<Rightarrow> py_dict list \<Rightarrow> real list \<Rightarrow> py_error + py_dict" where
  "calculate_feature_weights np feature_vectors labels =
     (case feature_vectors of
        [] \<Rightarrow> Inr []
      | first # _ \<Rightarrow>
          (let feature_names = map fst first
           in case feature_matrix feature_vectors feature_names of
                Inl e \<Rightarrow> Inl e
              | Inr X \<Rightarrow>
                  Inr (map (\<lambda>(i, feature_name).
                              (feature_name, feature_weight np (map (\<lambda>row. row ! i) X) labels))
                         (enumerate_py feature_names))))"

text \<open>\<open>RecommendationService._update_preference_weights\<close>; an exception leaves the service as it is.\<close>

definition update_preference_weights ::
  "numpy \<Rightarrow> string \<Rightarrow> RecommendationService \<Rightarrow>
   py_error option \<times> RecommendationService" where
  "update_preference_weights np sid svc =
     (let results = get_feedback svc sid
      in if length results < 2 then (None, svc)
         else
           (let feature_vectors = map (\<lambda>entry. doc_features (fst (snd entry))) results;
                labels = map (\<lambda>entry. if md_action (snd (snd entry)) = Like then 1 else - 1) results
            in case calculate_feature_weights np feature_vectors labels of
                 Inl e \<Rightarrow> (Some e, svc)
               | Inr weights \<Rightarrow>
                   (None,
                    svc\<lparr>preference_weights_collection :=
                          upsert sid
                            (\<lparr>wd_session_id = sid, wd_weights = weights,
                              wd_sample_size = length labels\<rparr>,
                             \<lparr>wm_session_id = sid, wm_sample_size = length labels\<rparr>)
                            (preference_weights_collection svc)\<rparr>)))"

text \<open>\<open>RecommendationService.record_feedback\<close>.\<close>

definition record_feedback ::
  "numpy \<Rightarrow> FeedbackRequest \<Rightarrow> Listing \<Rightarrow> FinalReport \<Rightarrow> RecommendationService \<Rightarrow>
   py_error option \<times> RecommendationService" where
  "record_feedback np feedback l final_report svc =
     (let features = extract_features l final_report;
          document = \<lparr>doc_session_id = fb_session_id feedback,
                       doc_listing_id = fb_listing_id feedback,
                       doc_action = fb_action feedback, doc_features = features\<rparr>;
          metadata = \<lparr>md_session_id = fb_session_id feedback,
                       md_listing_id = fb_listing_id feedback,
                       md_action = fb_action feedback, md_price = price l,
                       md_bedrooms = bedrooms l, md_bathrooms = bathrooms l,
                       md_sqft = sqft l, md_final_score = final_score final_report\<rparr>;
          feedback_id = fb_session_id feedback @ ''_'' @ fb_listing_id feedback
      in update_preference_weights np (fb_session_id feedback)
           (svc\<lparr>feedback_collection :=
                  upsert feedback_id (document, metadata) (feedback_collection svc)\<rparr>))"

text \<open>\<open>RecommendationService._get_preference_weights\<close>.\<close>

definition get_preference_weights :: "RecommendationService \<Rightarrow> string \<Rightarrow> py_dict option" where
  "get_preference_weights svc sid =
     (case filter (\<lambda>entry. fst entry = sid) (preference_weights_collection svc) of
        [] \<Rightarrow> None
      | entry # _ \<Rightarrow> Some (wd_weights (fst (snd entry))))"

text \<open>\<open>RecommendationService._calculate_personalized_score\<close>; the loop adds to \<open>weighted_sum\<close>.\<close>

fun weighted_sum_loop :: "py_dict \<Rightarrow> real \<Rightarrow> py_dict \<Rightarrow> real" where
  "weighted_sum_loop weights weighted_sum [] = weighted_sum"
| "weighted_sum_loop weights weighted_sum ((feature_name, feature_value) # rest) =
     (case map_of weights feature_name of
        None \<Rightarrow> weighted_sum_loop weights weighted_sum rest
      | Some w \<Rightarrow> weighted_sum_loop weights (weighted_sum + feature_value * w) rest)"

definition calculate_personalized_score :: "py_dict \<Rightarrow> py_dict \<Rightarrow> real" where
  "calculate_personalized_score features weights =
     (let base_score = dict_get features ''final_score'' 5;
          weighted_sum = weighted_sum_loop weights 0 features;
          personalized_score = 0.7 * base_score + 0.3 * (5 + weighted_sum)
      in max 0 (min 10 personalized_score))"

text \<open>\<open>RecommendationService.get_ranked_listings\<close>.\<close>

definition get_ranked_listings ::
  "RecommendationService \<Rightarrow> string \<Rightarrow> FinalReport list \<Rightarrow> FinalReport list" where
  "get_ranked_listings svc sid reports =
     (case get_preference_weights svc sid of
        None \<Rightarrow> sorted_desc final_score reports
      | Some weights \<Rightarrow>
          (if weights = [] then sorted_desc final_score reports
           else map snd
                  (sorted_desc fst
                     (map (\<lambda>report.
                             (calculate_personalized_score
                                (extract_features (listing report) report) weights,
                              report))
                        reports))))"

text \<open>\<open>RecommendationService.get_next_listing\<close>.\<close>

definition get_next_listing ::
  "RecommendationService \<Rightarrow> string \<Rightarrow> FinalReport list \<Rightarrow> string list \<Rightarrow> FinalReport option" where
  "get_next_listing svc sid available_listings seen_listing_ids =
     (let unseen_listings =
            filter (\<lambda>report. id (listing report) \<notin> set seen_listing_ids) available_listings
      in if unseen_listings = [] then None
         else (case get_ranked_listings svc sid unseen_listings of
                 [] \<Rightarrow> None
               | best # _ \<Rightarrow> Some best))"

text \<open>A service with empty collections, and the service after a sequence of feedback calls.\<close>

definition empty_service :: RecommendationService where
  "empty_service = \<lparr>feedback_collection = [], preference_weights_collection = []\<rparr>"

fun replay ::
  "numpy \<Rightarrow> RecommendationService \<Rightarrow> (FeedbackRequest \<times> Listing \<times> FinalReport) list \<Rightarrow>
   RecommendationService" where
  "replay np svc [] = svc"
| "replay np svc ((feedback, l, final_report) # calls) =
     replay np (snd (record_feedback np feedback l final_report svc)) calls"

text \<open>
  The formula of the specification for the personalized score, with the learned
  adjustment clamped before blending; it is compared with the code below.
\<close>

definition spec_personalized_score :: "py_dict \<Rightarrow> py_dict \<Rightarrow> real" where
  "spec_personalized_score features weights =
     max 0 (min 10
       (0.7 * dict_get features ''final_score'' 5 +
        0.3 * max 0 (min 10
                (5 + (\<Sum>(f, v)\<leftarrow>features. case map_of weights f of None \<Rightarrow> 0 | Some w \<Rightarrow> w * v)))))"

text \<open>The keys of the dictionary literal of \<open>_extract_features\<close>, in its order.\<close>

definition feature_names :: "string list" where
  "feature_names =
     [''price'', ''bedrooms'', ''bathrooms'', ''sqft'', ''days_on_market'', ''preference_match'',
      ''crime_score'', ''school_score'', ''walkability_score'', ''affordability_score'',
      ''final_score'', ''pro_count'', ''con_count'', ''argument_balance'', ''is_house'',
      ''is_condo'', ''is_townhouse'']"

text \<open>The stored feedback events of one (session id, listing id) pair.\<close>

definition events_for_pair ::
  "RecommendationService \<Rightarrow> string \<Rightarrow> string \<Rightarrow>
   (string \<times> FeedbackDocument \<times> FeedbackMetadata) list" where
  "events_for_pair svc sid lid =
     filter (\<lambda>entry. md_session_id (snd (snd entry)) = sid \<and> md_listing_id (snd (snd entry)) = lid)
       (feedback_collection svc)"

text \<open>
  What every service reached by feedback calls satisfies: ids are unique in both
  collections, a feedback entry's id is built from the session and listing ids of its
  metadata, and its features carry exactly the keys of \<open>_extract_features\<close>.
\<close>

definition service_ok :: "RecommendationService \<Rightarrow> bool" where
  "service_ok svc \<longleftrightarrow>
     distinct (map fst (feedback_collection svc)) \<and>
     distinct (map fst (preference_weights_collection svc)) \<and>
     (\<forall>entry\<in>set (feedback_collection svc).
        fst entry = md_session_id (snd (snd entry)) @ ''_'' @ md_listing_id (snd (snd entry)) \<and>
        map fst (doc_features (fst (snd entry))) = feature_names)"


section \<open>Sample inputs\<close>

text \<open>Concrete listings, collaborators and sessions on which the results below are run.\<close>

definition sample_listing :: "string \<Rightarrow> string \<Rightarrow> Listing" where
  "sample_listing i a =
     \<lparr>id = i, source = Zillow, url = [], address = a, city = ''Springfield'', state = ''IL'',
      zip_code = ''62701'', price = 500000, bedrooms = 3, bathrooms = 2, sqft = 1500,
      property_type = ''house'', description = [], images = [], listing_date = None,
      days_on_market = None\<rparr>"

definition sample_preferences :: UserPreferences where
  "sample_preferences =
     \<lparr>price_min = None, price_max = Some 800000, bedrooms_min = Some 2, bedrooms_max = None,
      bathrooms_min = None, bathrooms_max = None, sqft_min = None, sqft_max = None,
      location = Some ''Springfield'', property_types = None, must_have_features = None,
      deal_breakers = None, lifestyle_priorities = None\<rparr>"

definition sample_chat_sessions :: "string \<rightharpoonup> ChatSession" where
  "sample_chat_sessions k =
     (if k = ''chat-1''
      then Some \<lparr>session_id = ''chat-1'', preferences = Some sample_preferences,
                 preferences_complete = True\<rparr>
      else None)"

text \<open>
  Three adapters: the second one fails, the third one returns a listing at an address
  the first one has already returned.
\<close>

definition sample_scrape :: "UserPreferences \<Rightarrow> adapter_result list" where
  "sample_scrape p =
     [Listings [sample_listing ''l1'' ''1 Oak St'', sample_listing ''l2'' ''2 Oak St'',
                sample_listing ''l3'' ''3 Oak St''],
      Raised ''timeout'',
      Listings [sample_listing ''l4'' ''4 Oak St'', sample_listing ''l1b'' ''1 Oak Street'',
                sample_listing ''l5'' ''5 Oak St'']]"

text \<open>An evaluator that raises on listing \<open>l3\<close> only; an arguer and a compiler that return.\<close>

definition sample_evaluate :: "Listing \<Rightarrow> UserPreferences \<Rightarrow> EvaluationReport option" where
  "sample_evaluate l p =
     (if id l = ''l3'' then None
      else Some \<lparr>listing_id = id l, preference_match_score = 7, crime_score = None,
                 school_score = Some 8, walkability_score = None, affordability_score = None,
                 similar_evaluations = [], strengths = [], concerns = [],
                 additional_notes = None\<rparr>)"

definition sample_arguments ::
  "Listing \<Rightarrow> EvaluationReport \<Rightarrow> UserPreferences \<Rightarrow> ArgumentReport option" where
  "sample_arguments l e p =
     Some \<lparr>arg_listing_id = id l, pro_arguments = [''good schools''], con_arguments = []\<rparr>"

definition sample_compile ::
  "Listing \<Rightarrow> EvaluationReport \<Rightarrow> ArgumentReport \<Rightarrow> UserPreferences \<Rightarrow> FinalReport option" where
  "sample_compile l e a p =
     Some \<lparr>listing = l, evaluation = e, arguments = a, final_score = preference_match_score e,
           executive_summary = [], recommendation = Consider\<rparr>"

definition sample_run :: "session_write list" where
  "sample_run =
     run_search_pipeline sample_chat_sessions sample_scrape sample_evaluate sample_arguments
       sample_compile ''chat-1''"

text \<open>
  The session store as a poller finds it while the first evaluator call is pending (after
  the sixth assignment of the run), and after the run has finished.
\<close>

definition sample_evaluating_sessions :: "string \<rightharpoonup> SearchSession" where
  "sample_evaluating_sessions k =
     (if k = ''search-1''
      then Some (apply_writes (start_search ''chat-1'') (take 6 sample_run)) else None)"

definition sample_finished_sessions :: "string \<rightharpoonup> SearchSession" where
  "sample_finished_sessions k =
     (if k = ''search-1''
      then Some (apply_writes (start_search ''chat-1'') (take 100 sample_run)) else None)"

text \<open>A final report for a sample listing, with a given final score, and learned weights.\<close>

definition sample_report :: "string \<Rightarrow> string \<Rightarrow> real \<Rightarrow> FinalReport" where
  "sample_report i a score =
     \<lparr>listing = sample_listing i a,
      evaluation =
        \<lparr>listing_id = i, preference_match_score = 9, crime_score = None,
         school_score = Some 8, walkability_score = None, affordability_score = None,
         similar_evaluations = [], strengths = [], concerns = [], additional_notes = None\<rparr>,
      arguments = \<lparr>arg_listing_id = i, pro_arguments = [''good schools''], con_arguments = []\<rparr>,
      final_score = score, executive_summary = [], recommendation = Consider\<rparr>"

definition sample_features :: py_dict where
  "sample_features =
     extract_features (sample_listing ''l1'' ''1 Oak St'') (sample_report ''l1'' ''1 Oak St'' 2)"

definition sample_weights :: py_dict where
  "sample_weights = [(''preference_match'', 1), (''school_score'', 1), (''price'', - 1)]"

definition sample_small_weights :: py_dict where
  "sample_small_weights = [(''bedrooms'', 1 / 2), (''price'', - 1)]"

text \<open>Four final reports (two of them with the same final score) and feedback calls on them.\<close>

definition sample_reports :: "FinalReport list" where
  "sample_reports =
     [sample_report ''l1'' ''1 Oak St'' 2, sample_report ''l2'' ''2 Oak St'' 8,
      sample_report ''l3'' ''3 Oak St'' 5, sample_report ''l4'' ''4 Oak St'' 8]"


text \<open>
  A stand-in for the numerical library whose every result is \<open>nan\<close>, for the runs below
  whose outcome does not depend on the statistics.
\<close>

definition nan_numpy :: numpy where
  "nan_numpy = \<lparr>np_std = (\<lambda>xs. None), np_corrcoef = (\<lambda>xs ys. None)\<rparr>"


section \<open>Results: Candidate Collector\<close>

subsection \<open>The deduplication loop\<close>

lemma dedup_loop_append:
  "dedup_loop S acc (xs @ ys) =
   dedup_loop (S \<union> (\<lambda>l. normalize_address (address l)) ` set xs) (dedup_loop S acc xs) ys"
  by (induction xs arbitrary: S acc) (auto simp: Let_def insert_absorb)

lemma dedup_loop_snoc:
  "dedup_loop S acc (xs @ [x]) =
   (if normalize_address (address x) \<in> S \<union> (\<lambda>l. normalize_address (address l)) ` set xs
    then dedup_loop S acc xs else dedup_loop S acc xs @ [x])"
  by (simp add: dedup_loop_append Let_def)

lemma dedup_loop_distinct:
  "distinct (map (\<lambda>l. normalize_address (address l)) acc) \<Longrightarrow>
   (\<lambda>l. normalize_address (address l)) ` set acc \<subseteq> S \<Longrightarrow>
   distinct (map (\<lambda>l. normalize_address (address l)) (dedup_loop S acc xs))"
proof (induction xs arbitrary: S acc)
  case Nil
  then show ?case by simp
next
  case (Cons x xs)
  let ?k = "\<lambda>l. normalize_address (address l)"
  show ?case
  proof (cases "?k x \<in> S")
    case True
    then show ?thesis using Cons by simp
  next
    case False
    have "distinct (map ?k (acc @ [x]))" using Cons.prems False by auto
    moreover have "?k ` set (acc @ [x]) \<subseteq> insert (?k x) S" using Cons.prems by auto
    ultimately have "distinct (map ?k (dedup_loop (insert (?k x) S) (acc @ [x]) xs))"
      by (rule Cons.IH)
    then show ?thesis using False by simp
  qed
qed

lemma dedup_loop_fixed:
  "distinct (map (\<lambda>l. normalize_address (address l)) xs) \<Longrightarrow>
   (\<lambda>l. normalize_address (address l)) ` set xs \<inter> S = {} \<Longrightarrow>
   dedup_loop S acc xs = acc @ xs"
  by (induction xs arbitrary: S acc) (auto simp: Let_def)

lemma first_occ_filter_cong:
  "filter (\<lambda>i. \<forall>j<i. f ((xs @ [x]) ! j) \<noteq> f ((xs @ [x]) ! i)) [0..<length xs] =
   filter (\<lambda>i. \<forall>j<i. f (xs ! j) \<noteq> f (xs ! i)) [0..<length xs]"
  by (rule filter_cong) (simp_all add: nth_append)

lemma first_occ_map_cong:
  "map (\<lambda>i. (xs @ [x]) ! i) (filter P [0..<length xs]) =
   map (\<lambda>i. xs ! i) (filter P [0..<length xs])"
  by (rule map_cong) (simp_all add: nth_append)

lemma first_occ_last:
  "(\<forall>j<length xs. f ((xs @ [x]) ! j) \<noteq> f x) \<longleftrightarrow> f x \<notin> f ` set xs"
proof -
  have "(\<forall>j<length xs. f (xs ! j) \<noteq> f x) \<longleftrightarrow> f x \<notin> f ` set xs"
    by (metis image_iff in_set_conv_nth)
  then show ?thesis by (simp add: nth_append)
qed

lemma deduplicate_first_occurrences:
  "deduplicate_listings ls =
   map (\<lambda>i. ls ! i)
     (filter (\<lambda>i. \<forall>j<i. normalize_address (address (ls ! j)) \<noteq>
                          normalize_address (address (ls ! i)))
        [0..<length ls])"
proof (induction ls rule: rev_induct)
  case Nil
  show ?case by (simp add: deduplicate_listings_def)
next
  case (snoc x xs)
  let ?k = "\<lambda>l. normalize_address (address l)"
  let ?P = "\<lambda>ys i. \<forall>j<i. ?k (ys ! j) \<noteq> ?k (ys ! i)"
  have old: "map (\<lambda>i. (xs @ [x]) ! i) (filter (?P (xs @ [x])) [0..<length xs])
      = deduplicate_listings xs"
    unfolding first_occ_filter_cong [of ?k xs x] first_occ_map_cong using snoc.IH by simp
  have new: "?P (xs @ [x]) (length xs) \<longleftrightarrow> ?k x \<notin> ?k ` set xs"
    using first_occ_last [of xs ?k x] by simp
  have step: "deduplicate_listings (xs @ [x]) =
      (if ?k x \<in> ?k ` set xs then deduplicate_listings xs else deduplicate_listings xs @ [x])"
    by (simp add: deduplicate_listings_def dedup_loop_snoc)
  have "map (\<lambda>i. (xs @ [x]) ! i) (filter (?P (xs @ [x])) [0..<length (xs @ [x])]) =
      map (\<lambda>i. (xs @ [x]) ! i) (filter (?P (xs @ [x])) [0..<length xs]) @
      (if ?P (xs @ [x]) (length xs) then [x] else [])"
    by simp
  then show ?case unfolding old new step by simp
qed

subsection \<open>The shape of a normalized address\<close>

lemma set_replace: "set (replace old new s) \<subseteq> set s \<union> set new"
proof (induction old new s rule: replace.induct)
  case (1 old new)
  show ?case by auto
next
  case (2 old new c cs)
  show ?case
  proof (cases "old = []")
    case True
    then show ?thesis using 2 by auto
  next
    case False
    note ne = this
    show ?thesis
    proof (cases "prefix old (c # cs)")
      case True
      have "set (drop (length old) (c # cs)) \<subseteq> set (c # cs)" by (rule set_drop_subset)
      then show ?thesis using 2(2) [OF ne True] ne True by auto
    next
      case False
      then show ?thesis using 2(3) [OF ne False] ne by auto
    qed
  qed
qed

lemma replace_char_removed: "c \<notin> set (replace [c] [] s)"
proof (induction s)
  case Nil
  show ?case by simp
next
  case (Cons a s)
  show ?case using Cons by (cases "a = c") (simp_all add: prefix_def)
qed

lemma set_strip: "set (strip s) \<subseteq> set s"
proof -
  have "set (dropWhile is_space (rev (dropWhile is_space s))) \<subseteq> set (rev (dropWhile is_space s))"
    by (meson set_dropWhileD subsetI)
  moreover have "set (dropWhile is_space s) \<subseteq> set s"
    by (meson set_dropWhileD subsetI)
  ultimately show ?thesis by (auto simp: strip_def)
qed

lemma lower_char_idem: "lower_char (lower_char c) = lower_char c"
proof -
  let ?n = "of_char c :: nat"
  show ?thesis
  proof (cases "(65 \<le> ?n \<and> ?n \<le> 90) \<or> (192 \<le> ?n \<and> ?n \<le> 222 \<and> ?n \<noteq> 215)")
    case True
    then have "(of_char (char_of (?n + 32)) :: nat) = ?n + 32" by auto
    then show ?thesis using True by (auto simp: lower_char_def Let_def)
  next
    case False
    then have "lower_char c = c" by (auto simp: lower_char_def Let_def)
    then show ?thesis by simp
  qed
qed

lemma lower_fixed: "c \<in> set (lower s) \<Longrightarrow> lower_char c = c"
  by (auto simp: lower_def lower_char_idem)

lemma word_ok_mono: "word_ok A w \<Longrightarrow> A \<subseteq> B \<Longrightarrow> word_ok B w"
  by (auto simp: word_ok_def)

lemma split_from_words:
  "\<forall>c\<in>set cur. \<not> is_space c \<Longrightarrow> w \<in> set (split_from cur s) \<Longrightarrow>
   word_ok (set cur \<union> set s) w"
proof (induction s arbitrary: cur)
  case Nil
  then show ?case by (cases "cur = []") (simp_all add: word_ok_def)
next
  case (Cons c cs)
  show ?case
  proof (cases "is_space c")
    case True
    have empty: "\<forall>d\<in>set ([]::string). \<not> is_space d" by simp
    show ?thesis
    proof (cases "w = cur \<and> cur \<noteq> []")
      case True
      then show ?thesis using Cons.prems(1) by (auto simp: word_ok_def)
    next
      case False
      then have "w \<in> set (split_from [] cs)"
        using Cons.prems(2) \<open>is_space c\<close> by (cases "cur = []") auto
      then have "word_ok (set [] \<union> set cs) w" by (rule Cons.IH [OF empty])
      then show ?thesis by (rule word_ok_mono) auto
    qed
  next
    case False
    then have "w \<in> set (split_from (cur @ [c]) cs)" using Cons.prems(2) by simp
    moreover have "\<forall>d\<in>set (cur @ [c]). \<not> is_space d" using False Cons.prems(1) by simp
    ultimately have "word_ok (set (cur @ [c]) \<union> set cs) w" by (rule Cons.IH [rotated])
    then show ?thesis by (rule word_ok_mono) auto
  qed
qed

lemma split_words: "w \<in> set (split s) \<Longrightarrow> word_ok (set s) w"
  using split_from_words [of "[]" w s] by (simp add: split_def)

lemma normalize_address_words:
  "\<exists>ws. normalize_address addr = join '' '' ws \<and>
     (\<forall>w\<in>set ws. w \<noteq> [] \<and>
        (\<forall>c\<in>set w. \<not> is_space c \<and> c \<noteq> CHR ''.'' \<and> c \<noteq> CHR '','' \<and> lower_char c = c))"
proof -
  define s0 where "s0 = strip (lower addr)"
  define s1 where "s1 = replace ''street'' ''st'' s0"
  define s2 where "s2 = replace ''avenue'' ''ave'' s1"
  define s3 where "s3 = replace ''boulevard'' ''blvd'' s2"
  define s4 where "s4 = replace ''drive'' ''dr'' s3"
  define s5 where "s5 = replace ''road'' ''rd'' s4"
  define s6 where "s6 = replace ''.'' '''' s5"
  define s7 where "s7 = replace '','' '''' s6"
  have n: "normalize_address addr = join '' '' (split s7)"
    by (simp add: normalize_address_def s0_def s1_def s2_def s3_def s4_def s5_def s6_def s7_def)
  have l0: "\<forall>c\<in>set s0. lower_char c = c"
    using set_strip [of "lower addr"] lower_fixed [of _ addr] by (auto simp: s0_def)
  have l1: "\<forall>c\<in>set s1. lower_char c = c"
    using set_replace [of "''street''" "''st''" s0] l0 by (auto simp: s1_def lower_char_def)
  have l2: "\<forall>c\<in>set s2. lower_char c = c"
    using set_replace [of "''avenue''" "''ave''" s1] l1 by (auto simp: s2_def lower_char_def)
  have l3: "\<forall>c\<in>set s3. lower_char c = c"
    using set_replace [of "''boulevard''" "''blvd''" s2] l2 by (auto simp: s3_def lower_char_def)
  have l4: "\<forall>c\<in>set s4. lower_char c = c"
    using set_replace [of "''drive''" "''dr''" s3] l3 by (auto simp: s4_def lower_char_def)
  have l5: "\<forall>c\<in>set s5. lower_char c = c"
    using set_replace [of "''road''" "''rd''" s4] l4 by (auto simp: s5_def lower_char_def)
  have s6: "set s6 \<subseteq> set s5" "CHR ''.'' \<notin> set s6"
    using set_replace [of "''.''" "''''" s5] replace_char_removed [of "CHR ''.''" s5]
    by (auto simp: s6_def)
  have s7: "set s7 \<subseteq> set s6" "CHR '','' \<notin> set s7"
    using set_replace [of "'',''" "''''" s6] replace_char_removed [of "CHR '',''" s6]
    by (auto simp: s7_def)
  have "\<forall>w\<in>set (split s7). w \<noteq> [] \<and>
        (\<forall>c\<in>set w. \<not> is_space c \<and> c \<noteq> CHR ''.'' \<and> c \<noteq> CHR '','' \<and> lower_char c = c)"
  proof
    fix w assume "w \<in> set (split s7)"
    then have "word_ok (set s7) w" by (rule split_words)
    then show "w \<noteq> [] \<and>
        (\<forall>c\<in>set w. \<not> is_space c \<and> c \<noteq> CHR ''.'' \<and> c \<noteq> CHR '','' \<and> lower_char c = c)"
      using s6 s7 l5 unfolding word_ok_def by blast
  qed
  with n show ?thesis by blast
qed

lemma main_street_pair:
  assumes "address a = ''123 Main St''" and "address b = ''123 Main Street''"
  shows "deduplicate_listings [a, b] = [a]"
proof -
  have "normalize_address ''123 Main St'' = ''123 main st''" by code_simp
  moreover have "normalize_address ''123 Main Street'' = ''123 main st''" by code_simp
  ultimately show ?thesis using assms by (simp add: deduplicate_listings_def)
qed

subsection \<open>What normalization computes\<close>

lemma replace_delete_char: "replace [c] [] s = filter (\<lambda>x. x \<noteq> c) s"
proof (induction s)
  case Nil
  show ?case by simp
next
  case (Cons a s)
  show ?case using Cons by (cases "a = c") (simp_all add: prefix_def)
qed

lemma replace_no_occurrence: "\<not> sublist old s \<Longrightarrow> replace old new s = s"
proof (induction old new s rule: replace.induct)
  case (1 old new)
  then show ?case by auto
next
  case (2 old new c cs)
  have ne: "old \<noteq> []" using 2(4) by auto
  have np: "\<not> prefix old (c # cs)" using 2(4) prefix_imp_sublist by blast
  have "\<not> sublist old cs" using 2(4) by (simp add: sublist_Cons_right)
  then have "replace old new cs = cs" by (rule 2(3) [OF ne np])
  then show ?case using ne np by simp
qed

lemma replace_first_occurrence:
  assumes "old \<noteq> []" and "\<not> sublist old (u @ butlast old)"
  shows "replace old new (u @ old @ v) = u @ new @ replace old new v"
  using assms(2)
proof (induction u)
  case Nil
  obtain c cs where o: "old @ v = c # cs" using assms(1) by (cases "old @ v") auto
  have "prefix old (c # cs)" using o by (metis prefixI)
  then have "replace old new (c # cs) = new @ replace old new (drop (length old) (c # cs))"
    using assms(1) by simp
  then show ?case using o by (metis append_Nil append_eq_conv_conj)
next
  case (Cons a u)
  have ns: "\<not> sublist old (u @ butlast old)"
    using Cons.prems by (simp add: sublist_Cons_right)
  have np: "\<not> prefix old (a # u @ old @ v)"
  proof
    assume p: "prefix old (a # u @ old @ v)"
    have "a # u @ old @ v = (a # u @ butlast old) @ (last old # v)"
      using assms(1) by simp
    moreover have "prefix (a # u @ butlast old) ((a # u @ butlast old) @ (last old # v))"
      by simp
    moreover have "length old \<le> length (a # u @ butlast old)" by simp
    ultimately have "prefix old (a # u @ butlast old)"
      using p by (metis prefix_length_prefix)
    then have "sublist old (a # u @ butlast old)" by (rule prefix_imp_sublist)
    then show False using Cons.prems by simp
  qed
  show ?case using Cons.IH [OF ns] np assms(1) by simp
qed

lemma replace_keeps_prefix:
  assumes "old \<noteq> []" and "set pre \<inter> set old = {}"
  shows "replace old new (pre @ s) = pre @ replace old new s"
  using assms(2)
proof (induction pre)
  case Nil
  show ?case by simp
next
  case (Cons a pre)
  have "a \<noteq> hd old" using Cons.prems assms(1) by (cases old) auto
  then have "\<not> prefix old (a # pre @ s)" using assms(1) by (cases old) auto
  moreover have "set pre \<inter> set old = {}" using Cons.prems by auto
  ultimately show ?case using Cons.IH assms(1) by simp
qed

lemma replace_untouched: "old \<noteq> [] \<Longrightarrow> set t \<inter> set old = {} \<Longrightarrow> replace old new t = t"
  using replace_keeps_prefix [of old t new "[]"] by simp

lemma replace_keeps_suffix:
  "old \<noteq> [] \<Longrightarrow> set post \<inter> set old = {} \<Longrightarrow>
   replace old new (s @ post) = replace old new s @ post"
proof (induction old new s rule: replace.induct)
  case (1 old new)
  then show ?case by (simp add: replace_untouched)
next
  case (2 old new c cs)
  note ne = \<open>old \<noteq> []\<close>
  show ?case
  proof (cases "prefix old (c # cs)")
    case True
    then have len: "length old \<le> length (c # cs)" by (rule prefix_length_le)
    have p: "prefix old (c # cs @ post)" using True by (metis append_Cons prefix_prefix)
    have "drop (length old) ((c # cs) @ post) = drop (length old) (c # cs) @ post"
      using len by (simp only: drop_append) simp
    then have d: "drop (length old) (c # cs @ post) = drop (length old) (c # cs) @ post"
      by simp
    have "replace old new (drop (length old) (c # cs) @ post) =
        replace old new (drop (length old) (c # cs)) @ post"
      by (rule 2(2) [OF ne True ne 2(5)])
    then show ?thesis using True p d ne by simp
  next
    case False
    have np: "\<not> prefix old (c # cs @ post)"
    proof
      assume "prefix old (c # cs @ post)"
      then have "prefix old ((c # cs) @ post)" by simp
      then obtain us where us: "old = (c # cs) @ us" "prefix us post"
        using False unfolding prefix_append by blast
      have "us \<noteq> []" using us(1) False by auto
      then have "hd us \<in> set us" by simp
      then have "hd us \<in> set post \<and> hd us \<in> set old"
        using us by (auto dest: set_mono_prefix)
      then show False using 2(5) by auto
    qed
    have "replace old new (cs @ post) = replace old new cs @ post"
      by (rule 2(3) [OF ne False ne 2(5)])
    then show ?thesis using False np ne by simp
  qed
qed

lemma strip_decompose:
  "\<exists>pre post. s = pre @ strip s @ post \<and> (\<forall>c\<in>set pre. is_space c) \<and> (\<forall>c\<in>set post. is_space c)"
proof -
  define t where "t = dropWhile is_space s"
  have s: "s = takeWhile is_space s @ t" by (simp add: t_def)
  have "rev t = takeWhile is_space (rev t) @ dropWhile is_space (rev t)" by simp
  then have "t = rev (dropWhile is_space (rev t)) @ rev (takeWhile is_space (rev t))"
    by (metis rev_append rev_rev_ident)
  then have t: "t = strip s @ rev (takeWhile is_space (rev t))" by (simp add: strip_def t_def)
  have 1: "\<forall>c\<in>set (takeWhile is_space s). is_space c" by (meson set_takeWhileD)
  have 2: "\<forall>c\<in>set (rev (takeWhile is_space (rev t))). is_space c"
    by (metis set_rev set_takeWhileD)
  have "s = takeWhile is_space s @ strip s @ rev (takeWhile is_space (rev t))"
    using s t by metis
  then show ?thesis using 1 2 by blast
qed

lemma split_from_spaces: "\<forall>c\<in>set ws. is_space c \<Longrightarrow> split_from [] (ws @ s) = split_from [] s"
  by (induction ws) simp_all

lemma split_from_trailing:
  "\<forall>c\<in>set ws. is_space c \<Longrightarrow> split_from cur (s @ ws) = split_from cur s"
proof (induction s arbitrary: cur)
  case Nil
  have e: "split_from [] ws = []" using Nil split_from_spaces [of ws "[]"] by simp
  show ?case
  proof (cases ws)
    case Nil
    then show ?thesis by simp
  next
    case (Cons w ws')
    then have "is_space w" "\<forall>c\<in>set ws'. is_space c" using Nil.prems by auto
    then have "split_from [] ws' = []" using split_from_spaces [of ws' "[]"] by simp
    then show ?thesis using Cons \<open>is_space w\<close> by simp
  qed
next
  case (Cons a s)
  then show ?case by simp
qed

lemma split_trim:
  "\<forall>c\<in>set pre. is_space c \<Longrightarrow> \<forall>c\<in>set post. is_space c \<Longrightarrow>
   split (pre @ s @ post) = split s"
  by (simp add: split_def split_from_spaces split_from_trailing)

lemma replace_trim:
  assumes "old \<noteq> []" and "\<forall>c\<in>set old. \<not> is_space c"
    and "\<forall>c\<in>set pre. is_space c" and "\<forall>c\<in>set post. is_space c"
  shows "replace old new (pre @ t @ post) = pre @ replace old new t @ post"
proof -
  have 1: "set pre \<inter> set old = {}" using assms(2,3) by auto
  have 2: "set post \<inter> set old = {}" using assms(2,4) by auto
  show ?thesis
    by (simp add: replace_keeps_prefix [OF assms(1) 1] replace_keeps_suffix [OF assms(1) 2])
qed

lemma normalize_address_equation:
  "normalize_address addr =
   join '' ''
     (split
        (filter (\<lambda>c. c \<noteq> CHR ''.'' \<and> c \<noteq> CHR '','')
           (replace ''road'' ''rd''
              (replace ''drive'' ''dr''
                 (replace ''boulevard'' ''blvd''
                    (replace ''avenue'' ''ave''
                       (replace ''street'' ''st'' (lower addr))))))))"
proof -
  obtain pre post where s: "lower addr = pre @ strip (lower addr) @ post"
    and pre: "\<forall>c\<in>set pre. is_space c" and post: "\<forall>c\<in>set post. is_space c"
    using strip_decompose [of "lower addr"] by blast
  define t where "t = strip (lower addr)"
  define chain where "chain = (\<lambda>x. replace ''road'' ''rd''
              (replace ''drive'' ''dr''
                 (replace ''boulevard'' ''blvd''
                    (replace ''avenue'' ''ave''
                       (replace ''street'' ''st'' x)))))"
  have w: "\<forall>c\<in>set ''street''. \<not> is_space c" "\<forall>c\<in>set ''avenue''. \<not> is_space c"
    "\<forall>c\<in>set ''boulevard''. \<not> is_space c" "\<forall>c\<in>set ''drive''. \<not> is_space c"
    "\<forall>c\<in>set ''road''. \<not> is_space c"
    by (simp_all add: is_space_def)
  have ch: "chain (pre @ t @ post) = pre @ chain t @ post"
    unfolding chain_def
    by (simp only: replace_trim [OF _ w(1) pre post] replace_trim [OF _ w(2) pre post]
        replace_trim [OF _ w(3) pre post] replace_trim [OF _ w(4) pre post]
        replace_trim [OF _ w(5) pre post] list.distinct not_False_eq_True)
  have sp: "\<not> is_space (CHR ''.'')" "\<not> is_space (CHR '','')" by (simp_all add: is_space_def)
  have fpre: "filter (\<lambda>c. c \<noteq> CHR ''.'' \<and> c \<noteq> CHR '','') pre = pre"
    using pre sp by (auto simp: filter_id_conv)
  have fpost: "filter (\<lambda>c. c \<noteq> CHR ''.'' \<and> c \<noteq> CHR '','') post = post"
    using post sp by (auto simp: filter_id_conv)
  have "split (filter (\<lambda>c. c \<noteq> CHR ''.'' \<and> c \<noteq> CHR '','') (chain (lower addr))) =
      split (pre @ filter (\<lambda>c. c \<noteq> CHR ''.'' \<and> c \<noteq> CHR '','') (chain t) @ post)"
    using s ch fpre fpost by (simp add: t_def)
  also have "\<dots> = split (filter (\<lambda>c. c \<noteq> CHR ''.'' \<and> c \<noteq> CHR '','') (chain t))"
    by (rule split_trim [OF pre post])
  finally have eq: "split (filter (\<lambda>c. c \<noteq> CHR ''.'' \<and> c \<noteq> CHR '','') (chain (lower addr))) =
      split (filter (\<lambda>c. c \<noteq> CHR ''.'' \<and> c \<noteq> CHR '','') (chain t))" .
  have "normalize_address addr =
      join '' '' (split (filter (\<lambda>x. x \<noteq> CHR '','') (filter (\<lambda>x. x \<noteq> CHR ''.'') (chain t))))"
    by (simp add: normalize_address_def Let_def chain_def t_def replace_delete_char
        del: replace.simps)
  also have "filter (\<lambda>x. x \<noteq> CHR '','') (filter (\<lambda>x. x \<noteq> CHR ''.'') (chain t)) =
      filter (\<lambda>c. c \<noteq> CHR ''.'' \<and> c \<noteq> CHR '','') (chain t)"
    by (simp add: conj_commute)
  finally show ?thesis using eq by (simp add: chain_def)
qed

lemma filter_replace:
  "\<forall>c\<in>set old \<union> set new. \<not> P c \<Longrightarrow> filter P (replace old new s) = filter P s"
proof (induction old new s rule: replace.induct)
  case (1 old new)
  then show ?case by (auto simp: filter_empty_conv)
next
  case (2 old new c cs)
  have fn: "filter P new = []" using 2(4) by (auto simp: filter_empty_conv)
  have fo: "filter P old = []" using 2(4) by (auto simp: filter_empty_conv)
  show ?case
  proof (cases "old = []")
    case True
    then show ?thesis using 2(1) [OF True 2(4)] fn by simp
  next
    case False
    note ne = this
    show ?thesis
    proof (cases "prefix old (c # cs)")
      case True
      then have "c # cs = old @ drop (length old) (c # cs)"
        by (metis append_eq_conv_conj prefixE)
      then have "filter P (c # cs) = filter P (drop (length old) (c # cs))"
        using fo by (metis append_Nil filter_append)
      then show ?thesis using 2(2) [OF ne True 2(4)] ne True fn by simp
    next
      case False
      then show ?thesis using 2(3) [OF ne False 2(4)] ne by simp
    qed
  qed
qed

lemma concat_split_from: "concat (split_from cur s) = cur @ filter (\<lambda>c. \<not> is_space c) s"
  by (induction s arbitrary: cur) simp_all

lemma filter_join: "\<forall>c\<in>set sep. \<not> P c \<Longrightarrow> filter P (join sep ws) = filter P (concat ws)"
proof (induction sep ws rule: join.induct)
  case (1 sep)
  show ?case by simp
next
  case (2 sep w)
  show ?case by simp
next
  case (3 sep w v ws)
  have "filter P sep = []" using 3(2) by (auto simp: filter_empty_conv)
  then show ?case using 3 by simp
qed

lemma normalize_address_kept:
  "filter kept_char (normalize_address addr) = filter kept_char (lower addr)"
proof -
  define chain where "chain = replace ''road'' ''rd''
              (replace ''drive'' ''dr''
                 (replace ''boulevard'' ''blvd''
                    (replace ''avenue'' ''ave''
                       (replace ''street'' ''st'' (lower addr)))))"
  have k: "\<forall>c\<in>set ''street'' \<union> set ''st''. \<not> kept_char c"
    "\<forall>c\<in>set ''avenue'' \<union> set ''ave''. \<not> kept_char c"
    "\<forall>c\<in>set ''boulevard'' \<union> set ''blvd''. \<not> kept_char c"
    "\<forall>c\<in>set ''drive'' \<union> set ''dr''. \<not> kept_char c"
    "\<forall>c\<in>set ''road'' \<union> set ''rd''. \<not> kept_char c"
    by (simp_all add: kept_char_def)
  have sp: "\<forall>c\<in>set '' ''. \<not> kept_char c" by (simp add: kept_char_def is_space_def)
  have "filter kept_char (normalize_address addr) =
      filter kept_char (concat (split (filter (\<lambda>c. c \<noteq> CHR ''.'' \<and> c \<noteq> CHR '','') chain)))"
    unfolding normalize_address_equation chain_def by (rule filter_join [OF sp])
  also have "\<dots> = filter kept_char chain"
    by (auto simp: split_def concat_split_from kept_char_def intro: filter_cong)
  also have "\<dots> = filter kept_char (lower addr)"
    unfolding chain_def
    by (simp only: filter_replace [OF k(1)] filter_replace [OF k(2)] filter_replace [OF k(3)]
        filter_replace [OF k(4)] filter_replace [OF k(5)])
  finally show ?thesis .
qed

subsection \<open>Claims about the Candidate Collector\<close>

text \<open>
  C3, as stated, expects punctuation to be stripped: the addresses \<open>1-23 Main St\<close> and
  \<open>12-3 Main St\<close> would then normalize to the same string and the second listing would be
  dropped. The code deletes only periods and commas, the hyphen stays, and both listings
  are kept.
\<close>

theorem punctuation_kept_counterexample:
  "normalize_address ''1-23 Main St'' = ''1-23 main st'' \<and>
   normalize_address ''12-3 Main St'' = ''12-3 main st'' \<and>
   deduplicate_listings
     [sample_listing ''l1'' ''1-23 Main St'', sample_listing ''l2'' ''12-3 Main St''] =
     [sample_listing ''l1'' ''1-23 Main St'', sample_listing ''l2'' ''12-3 Main St'']"
  by code_simp

text \<open>
  C3 (amended): normalization lower-cases the address, replaces the occurrences of
  \<open>street\<close>, then \<open>avenue\<close>, \<open>boulevard\<close>, \<open>drive\<close> and \<open>road\<close> by \<open>st\<close>, \<open>ave\<close>,
  \<open>blvd\<close>, \<open>dr\<close> and \<open>rd\<close>, deletes periods and commas, and trims and collapses
  whitespace to single spaces. A replacement leaves a string without the word as it is and
  otherwise rewrites the leftmost occurrence and goes on behind it. Every character that
  is neither whitespace, nor a period or comma, nor a letter of the five words (so all
  other punctuation) is kept, lower-cased, in its order. The result is a sequence of
  non-empty words joined by single spaces, free of upper-case letters, periods and commas.
  Deduplication keeps exactly the listings at the positions where a normalized address
  occurs for the first time, in input order; in particular of two listings at
  \<open>123 Main St\<close> and \<open>123 Main Street\<close> only the first is kept.
\<close>

theorem deduplicate_keeps_first_of_normalized_address:
  "normalize_address addr =
     join '' ''
       (split
          (filter (\<lambda>c. c \<noteq> CHR ''.'' \<and> c \<noteq> CHR '','')
             (replace ''road'' ''rd''
                (replace ''drive'' ''dr''
                   (replace ''boulevard'' ''blvd''
                      (replace ''avenue'' ''ave''
                         (replace ''street'' ''st'' (lower addr)))))))) \<and>
   (\<not> sublist old s \<longrightarrow> replace old new s = s) \<and>
   (old \<noteq> [] \<and> \<not> sublist old (u @ butlast old) \<longrightarrow>
      replace old new (u @ old @ v) = u @ new @ replace old new v) \<and>
   filter kept_char (normalize_address addr) = filter kept_char (lower addr) \<and>
   (\<exists>ws. normalize_address addr = join '' '' ws \<and>
     (\<forall>w\<in>set ws. w \<noteq> [] \<and>
        (\<forall>c\<in>set w. \<not> is_space c \<and> c \<noteq> CHR ''.'' \<and> c \<noteq> CHR '','' \<and>
                     lower_char c = c))) \<and>
   normalize_address ''7 Elm Street'' = normalize_address ''7 elm st.'' \<and>
   normalize_address '' 5  Oak Avenue, '' = normalize_address ''5 Oak Ave'' \<and>
   normalize_address ''9 Sunset Boulevard'' = normalize_address ''9 Sunset Blvd'' \<and>
   normalize_address ''9 Hill Drive'' = normalize_address ''9 Hill Dr'' \<and>
   normalize_address ''9 Hill Road'' = normalize_address ''9 Hill Rd'' \<and>
   deduplicate_listings ls =
     map (\<lambda>i. ls ! i)
       (filter (\<lambda>i. \<forall>j<i. normalize_address (address (ls ! j)) \<noteq>
                            normalize_address (address (ls ! i)))
          [0..<length ls]) \<and>
   (address a = ''123 Main St'' \<and> address b = ''123 Main Street'' \<longrightarrow>
      deduplicate_listings [a, b] = [a])"
proof -
  have inst: "normalize_address ''7 Elm Street'' = normalize_address ''7 elm st.'' \<and>
   normalize_address '' 5  Oak Avenue, '' = normalize_address ''5 Oak Ave'' \<and>
   normalize_address ''9 Sunset Boulevard'' = normalize_address ''9 Sunset Blvd'' \<and>
   normalize_address ''9 Hill Drive'' = normalize_address ''9 Hill Dr'' \<and>
   normalize_address ''9 Hill Road'' = normalize_address ''9 Hill Rd''"
    by code_simp
  have r1: "\<not> sublist old s \<longrightarrow> replace old new s = s"
    using replace_no_occurrence by blast
  have r2: "old \<noteq> [] \<and> \<not> sublist old (u @ butlast old) \<longrightarrow>
      replace old new (u @ old @ v) = u @ new @ replace old new v"
    using replace_first_occurrence by blast
  have pair: "address a = ''123 Main St'' \<and> address b = ''123 Main Street'' \<longrightarrow>
      deduplicate_listings [a, b] = [a]"
    using main_street_pair by blast
  show ?thesis
    by (intro conjI normalize_address_equation r1 r2 normalize_address_kept
        normalize_address_words deduplicate_first_occurrences pair
        inst [THEN conjunct1] inst [THEN conjunct2, THEN conjunct1]
        inst [THEN conjunct2, THEN conjunct2, THEN conjunct1]
        inst [THEN conjunct2, THEN conjunct2, THEN conjunct2, THEN conjunct1]
        inst [THEN conjunct2, THEN conjunct2, THEN conjunct2, THEN conjunct2])
qed

theorem deduplicate_keeps_first_of_normalized_address_witness:
  "deduplicate_listings
     [sample_listing ''z1'' ''123 Main St'', sample_listing ''r7'' ''123 Main Street''] =
     [sample_listing ''z1'' ''123 Main St''] \<and>
   replace ''street'' ''st'' ''12 high street west'' = ''12 high st west'' \<and>
   replace ''street'' ''st'' ''1-23 main st'' = ''1-23 main st''"
proof -
  have n1: "\<not> sublist ''street'' ''1-23 main st''"
    by (simp add: sublist_Cons_right prefix_Cons)
  have n2: "\<not> sublist ''street'' (''12 high '' @ butlast ''street'')"
    by (simp add: sublist_Cons_right prefix_Cons)
  have n3: "\<not> sublist ''street'' '' west''"
    by (simp add: sublist_Cons_right prefix_Cons)
  have tl: "replace ''street'' ''st'' '' west'' = '' west''"
    using deduplicate_keeps_first_of_normalized_address
      [where old = "''street''" and new = "''st''" and s = "'' west''"] n3
    by blast
  have a: "address (sample_listing ''z1'' ''123 Main St'') = ''123 Main St''"
    "address (sample_listing ''r7'' ''123 Main Street'') = ''123 Main Street''"
    by (simp_all add: sample_listing_def)
  have "replace ''street'' ''st'' (''12 high '' @ ''street'' @ '' west'') =
      ''12 high '' @ ''st'' @ replace ''street'' ''st'' '' west''"
    using deduplicate_keeps_first_of_normalized_address
      [where old = "''street''" and new = "''st''" and u = "''12 high ''" and v = "'' west''"]
      n2
    by blast
  moreover have "replace ''street'' ''st'' ''1-23 main st'' = ''1-23 main st''"
    using deduplicate_keeps_first_of_normalized_address
      [where old = "''street''" and new = "''st''" and s = "''1-23 main st''"] n1
    by blast
  moreover have "deduplicate_listings
     [sample_listing ''z1'' ''123 Main St'', sample_listing ''r7'' ''123 Main Street''] =
     [sample_listing ''z1'' ''123 Main St'']"
    using deduplicate_keeps_first_of_normalized_address
      [where a = "sample_listing ''z1'' ''123 Main St''"
         and b = "sample_listing ''r7'' ''123 Main Street''"] a
    by blast
  ultimately show ?thesis using tl by simp
qed

text \<open>
  C10: deduplication is idempotent: applied to a list it has produced, it returns that
  list, with the same elements in the same order.
\<close>

theorem deduplicate_idempotent:
  "deduplicate_listings (deduplicate_listings ls) = deduplicate_listings ls"
proof -
  have "distinct (map (\<lambda>l. normalize_address (address l)) (dedup_loop {} [] ls))"
    by (rule dedup_loop_distinct) simp_all
  then have "dedup_loop {} [] (dedup_loop {} [] ls) = [] @ dedup_loop {} [] ls"
    by (rule dedup_loop_fixed) simp
  then show ?thesis by (simp add: deduplicate_listings_def)
qed

section \<open>Results: Pipeline Coordinator\<close>

subsection \<open>Traces of assignments\<close>

lemma observable_hd: "observable s ws = s # tl (observable s ws)"
  by (cases ws) simp_all

lemma progress_apply_write:
  "progress (apply_write s w) = (case w of SetProgress v \<Rightarrow> v | _ \<Rightarrow> progress s)"
  by (cases w) simp_all

lemma status_apply_write:
  "status (apply_write s w) = (case w of SetStatus v \<Rightarrow> v | _ \<Rightarrow> status s)"
  by (cases w) simp_all

lemma observable_progress_set:
  "set (map progress (observable s ws)) \<subseteq> insert (progress s) (set (progress_values ws))"
proof (induction ws arbitrary: s)
  case Nil
  show ?case by simp
next
  case (Cons w ws)
  show ?case using Cons [of "apply_write s w"] by (cases w) auto
qed

lemma observable_progress_sorted:
  "sorted (progress s # progress_values ws) \<Longrightarrow> sorted (map progress (observable s ws))"
proof (induction ws arbitrary: s)
  case Nil
  show ?case by simp
next
  case (Cons w ws)
  let ?s = "apply_write s w"
  have step: "sorted (progress ?s # progress_values ws)"
    using Cons.prems by (cases w) simp_all
  then have tl: "sorted (map progress (observable ?s ws))" by (rule Cons.IH)
  have "\<forall>v \<in> set (map progress (observable ?s ws)). progress s \<le> v"
    using observable_progress_set [of ?s ws] Cons.prems by (cases w) auto
  with tl show ?case by simp
qed

lemma status_step_refl: "status_step a a"
  by (cases a) simp_all

lemma observable_status_steps:
  "successively status_step (status s # status_values ws) \<Longrightarrow>
   successively status_step (map status (observable s ws))"
proof (induction ws arbitrary: s)
  case Nil
  show ?case by simp
next
  case (Cons w ws)
  let ?s = "apply_write s w"
  have step: "status_step (status s) (status ?s) \<and>
      successively status_step (status ?s # status_values ws)"
    using Cons.prems by (cases w) (simp_all add: status_step_refl)
  then have "successively status_step (map status (observable ?s ws))"
    using Cons.IH by blast
  moreover have "hd (map status (observable ?s ws)) = status ?s"
    by (subst observable_hd) simp
  ultimately show ?case using step by (simp add: successively_Cons)
qed

subsection \<open>The enrichment loops\<close>

lemma evaluate_loop_items:
  "fst (evaluate_loop f prefs n ps) =
   map (\<lambda>p. (snd p, the (f (snd p) prefs))) (filter (\<lambda>p. f (snd p) prefs \<noteq> None) ps)"
  by (induction ps) (auto split: prod.splits option.splits)

lemma evaluate_loop_writes:
  "snd (evaluate_loop f prefs n ps) =
   map (\<lambda>p. SetProgress (50 + 20 * (real (fst p) + 1) / real n))
     (filter (\<lambda>p. f (snd p) prefs \<noteq> None) ps)"
  by (induction ps) (auto split: prod.splits option.splits)

lemma argue_loop_items:
  "fst (argue_loop f prefs n ps) =
   map (\<lambda>p. (fst (snd p), snd (snd p), the (f (fst (snd p)) (snd (snd p)) prefs)))
     (filter (\<lambda>p. f (fst (snd p)) (snd (snd p)) prefs \<noteq> None) ps)"
  by (induction ps) (auto split: prod.splits option.splits)

lemma argue_loop_writes:
  "snd (argue_loop f prefs n ps) =
   map (\<lambda>p. SetProgress (70 + 15 * (real (fst p) + 1) / real n))
     (filter (\<lambda>p. f (fst (snd p)) (snd (snd p)) prefs \<noteq> None) ps)"
  by (induction ps) (auto split: prod.splits option.splits)

lemma compile_loop_items:
  "fst (compile_loop f prefs n ps) =
   map (\<lambda>p. the (f (fst (snd p)) (fst (snd (snd p))) (snd (snd (snd p))) prefs))
     (filter (\<lambda>p. f (fst (snd p)) (fst (snd (snd p))) (snd (snd (snd p))) prefs \<noteq> None) ps)"
  by (induction ps) (auto split: prod.splits option.splits)

lemma compile_loop_writes:
  "snd (compile_loop f prefs n ps) =
   map (\<lambda>p. SetProgress (85 + 10 * (real (fst p) + 1) / real n))
     (filter (\<lambda>p. f (fst (snd p)) (fst (snd (snd p))) (snd (snd (snd p))) prefs \<noteq> None) ps)"
  by (induction ps) (auto split: prod.splits option.splits)

lemma progress_values_map [simp]: "progress_values (map (\<lambda>p. SetProgress (g p)) ps) = map g ps"
  by (induction ps) simp_all

lemma status_values_map [simp]: "status_values (map (\<lambda>p. SetProgress (g p)) ps) = []"
  by (induction ps) simp_all

lemma progress_values_append [simp]:
  "progress_values (xs @ ys) = progress_values xs @ progress_values ys"
  by (induction xs rule: progress_values.induct) simp_all

lemma status_values_append [simp]:
  "status_values (xs @ ys) = status_values xs @ status_values ys"
  by (induction xs rule: status_values.induct) simp_all

lemma enumerate_fst: "map fst (enumerate_py xs) = [0..<length xs]"
  by (simp add: enumerate_py_def)

lemma enumerate_snd: "map snd (enumerate_py xs) = xs"
  by (simp add: enumerate_py_def)

lemma enumerate_bound: "p \<in> set (enumerate_py xs) \<Longrightarrow> fst p < length xs"
  by (auto simp: enumerate_py_def in_set_zip)

lemma stage_values_bounds:
  assumes "\<forall>p\<in>set ps. fst p < n" and "0 \<le> c"
  shows "\<forall>v\<in>set (map (\<lambda>p. b + c * (real (fst p) + 1) / real n) (filter P ps)). b \<le> v \<and> v \<le> b + c"
proof
  fix v assume "v \<in> set (map (\<lambda>p. b + c * (real (fst p) + 1) / real n) (filter P ps))"
  then obtain p where p: "p \<in> set ps" and v: "v = b + c * (real (fst p) + 1) / real n" by auto
  from p assms(1) have lt: "fst p < n" by blast
  then have n: "0 < real n" by simp
  have "real (fst p) + 1 \<le> real n" using lt by simp
  then have "(real (fst p) + 1) / real n \<le> 1" using n by (simp add: divide_le_eq)
  then have "c * ((real (fst p) + 1) / real n) \<le> c * 1" using assms(2) by (rule mult_left_mono)
  moreover have "0 \<le> c * ((real (fst p) + 1) / real n)" using assms(2) n by simp
  ultimately show "b \<le> v \<and> v \<le> b + c" using v by simp
qed

lemma stage_values_sorted:
  assumes "sorted (map fst ps)" and "0 \<le> c"
  shows "sorted (map (\<lambda>p. b + c * (real (fst p) + 1) / real n) (filter P ps))"
  using assms(1)
proof (induction ps)
  case Nil
  show ?case by simp
next
  case (Cons p ps)
  have "\<forall>q\<in>set ps. b + c * (real (fst p) + 1) / real n \<le> b + c * (real (fst q) + 1) / real n"
  proof
    fix q assume "q \<in> set ps"
    then have "fst p \<le> fst q" using Cons.prems by auto
    then have "(real (fst p) + 1) / real n \<le> (real (fst q) + 1) / real n"
      by (simp add: divide_right_mono)
    then have "c * ((real (fst p) + 1) / real n) \<le> c * ((real (fst q) + 1) / real n)"
      using assms(2) by (rule mult_left_mono)
    then show "b + c * (real (fst p) + 1) / real n \<le> b + c * (real (fst q) + 1) / real n" by simp
  qed
  moreover have "sorted (map (\<lambda>p. b + c * (real (fst p) + 1) / real n) (filter P ps))"
    using Cons by simp
  ultimately show ?case by auto
qed

lemma enumerate_sorted: "sorted (map fst (enumerate_py xs))"
  by (simp add: enumerate_fst)

lemma sorted_append_bounds:
  fixes m :: real
  assumes "sorted xs" "sorted ys" "\<forall>x\<in>set xs. x \<le> m" "\<forall>y\<in>set ys. m \<le> y"
  shows "sorted (xs @ ys)"
proof -
  have "\<forall>x\<in>set xs. \<forall>y\<in>set ys. x \<le> y"
    using assms(3,4) by (meson order_trans)
  then show ?thesis using assms(1,2) by (simp add: sorted_append)
qed

lemma sorted_cons_bound:
  fixes m :: real
  assumes "sorted xs" "\<forall>x\<in>set xs. m \<le> x" "a \<le> m"
  shows "sorted (a # xs)"
proof -
  have "\<forall>x\<in>set xs. a \<le> x" using assms(2,3) by (meson order_trans)
  then show ?thesis using assms(1) by simp
qed

lemma range_widen:
  fixes lo :: real
  assumes "\<forall>v\<in>S. lo \<le> v \<and> v \<le> hi" "lo' \<le> lo" "hi \<le> hi'"
  shows "\<forall>v\<in>S. lo' \<le> v \<and> v \<le> hi'"
  using assms by (meson order_trans)

lemma range_cons:
  fixes lo :: real
  assumes "\<forall>v\<in>set xs. lo \<le> v \<and> v \<le> hi" "lo \<le> a" "a \<le> hi"
  shows "\<forall>v\<in>set (a # xs). lo \<le> v \<and> v \<le> hi"
  using assms by simp

lemma range_append:
  fixes lo :: real
  assumes "\<forall>v\<in>set xs. lo \<le> v \<and> v \<le> hi" "\<forall>v\<in>set ys. lo \<le> v \<and> v \<le> hi"
  shows "\<forall>v\<in>set (xs @ ys). lo \<le> v \<and> v \<le> hi"
  using assms by auto

lemma staged_sorted:
  fixes vsE vsA vsC :: "real list"
  assumes "sorted vsE" "\<forall>v\<in>set vsE. 50 \<le> v \<and> v \<le> 70"
    "sorted vsA" "\<forall>v\<in>set vsA. 70 \<le> v \<and> v \<le> 85"
    "sorted vsC" "\<forall>v\<in>set vsC. 85 \<le> v \<and> v \<le> 95"
  shows "sorted (0 # [20, 50] @ vsE @ [70] @ vsA @ [85] @ vsC @ [100])"
    and "\<forall>v\<in>set (0 # [20, 50] @ vsE @ [70] @ vsA @ [85] @ vsC @ [100]). 0 \<le> v \<and> v \<le> 100"
proof -
  have rC: "\<forall>v\<in>set (85 # vsC @ [100]). 85 \<le> v \<and> v \<le> 100"
    by (intro range_cons range_append range_widen [OF assms(6)]) simp_all
  have "sorted (vsC @ [100])"
    by (rule sorted_append_bounds [where m = 95]) (use assms(5,6) in simp_all)
  then have sC: "sorted (85 # vsC @ [100])"
    by (rule sorted_cons_bound [where m = 85]) (use rC in simp_all)
  have rA: "\<forall>v\<in>set (70 # vsA @ 85 # vsC @ [100]). 70 \<le> v \<and> v \<le> 100"
    by (intro range_cons range_append range_widen [OF assms(4)] range_widen [OF rC]) simp_all
  have "sorted (vsA @ 85 # vsC @ [100])"
    by (rule sorted_append_bounds [where m = 85]) (use assms(3,4) sC rC in simp_all)
  then have sA: "sorted (70 # vsA @ 85 # vsC @ [100])"
    by (rule sorted_cons_bound [where m = 70]) (use rA in simp_all)
  have rE: "\<forall>v\<in>set (vsE @ 70 # vsA @ 85 # vsC @ [100]). 50 \<le> v \<and> v \<le> 100"
    by (intro range_append range_widen [OF assms(2)] range_widen [OF rA]) simp_all
  have sE: "sorted (vsE @ 70 # vsA @ 85 # vsC @ [100])"
    by (rule sorted_append_bounds [where m = 70]) (use assms(1,2) sA rA in simp_all)
  have s50: "sorted (50 # vsE @ 70 # vsA @ 85 # vsC @ [100])"
    by (rule sorted_cons_bound [where m = 50]) (use sE rE in simp_all)
  have r50: "\<forall>v\<in>set (50 # vsE @ 70 # vsA @ 85 # vsC @ [100]). 50 \<le> v \<and> v \<le> 100"
    by (intro range_cons rE) simp_all
  have s20: "sorted (20 # 50 # vsE @ 70 # vsA @ 85 # vsC @ [100])"
    by (rule sorted_cons_bound [where m = 50]) (use s50 r50 in simp_all)
  have r20: "\<forall>v\<in>set (20 # 50 # vsE @ 70 # vsA @ 85 # vsC @ [100]). 0 \<le> v \<and> v \<le> 100"
    by (intro range_cons range_widen [OF r50]) simp_all
  have "sorted (0 # 20 # 50 # vsE @ 70 # vsA @ 85 # vsC @ [100])"
    by (rule sorted_cons_bound [where m = 0]) (use s20 r20 in simp_all)
  then show "sorted (0 # [20, 50] @ vsE @ [70] @ vsA @ [85] @ vsC @ [100])" by simp
  have "\<forall>v\<in>set (0 # 20 # 50 # vsE @ 70 # vsA @ 85 # vsC @ [100]). 0 \<le> v \<and> v \<le> 100"
    by (intro range_cons r20) simp_all
  then show "\<forall>v\<in>set (0 # [20, 50] @ vsE @ [70] @ vsA @ [85] @ vsC @ [100]). 0 \<le> v \<and> v \<le> 100"
    by simp
qed

subsection \<open>The assignments of one run\<close>

lemma run_search_pipeline_ok:
  fixes scrape ev ar co prefs
  defines "ls \<equiv> search_all_platforms (scrape prefs)"
  defines "E \<equiv> evaluate_loop ev prefs (length ls) (enumerate_py ls)"
  defines "A \<equiv> argue_loop ar prefs (length (fst E)) (enumerate_py (fst E))"
  defines "C \<equiv> compile_loop co prefs (length (fst A)) (enumerate_py (fst A))"
  assumes "chat_sessions cid = Some chat_session" and "preferences chat_session = Some prefs"
  shows "run_search_pipeline chat_sessions scrape ev ar co cid =
     [SetStatus Scraping, SetMessage ''Searching real estate platforms...'', SetProgress 20,
      SetStatus Evaluating, SetMessage ''Evaluating listings...'', SetProgress 50]
     @ snd E
     @ [SetStatus Evaluating, SetMessage ''Generating pro/con arguments...'', SetProgress 70]
     @ snd A
     @ [SetStatus Evaluating, SetMessage ''Compiling final reports...'', SetProgress 85]
     @ snd C
     @ [SetStatus Complete, SetMessage ''Analysis complete'', SetProgress 100,
        SetListings ls, SetEvaluated (fst E), SetArgued (fst A),
        SetFinal (sorted_desc final_score (fst C))]"
  using assms(5,6) unfolding ls_def E_def A_def C_def
  by (simp add: run_search_pipeline_def Let_def case_prod_beta)

lemma run_progress_values:
  "\<exists>vsE vsA vsC.
     progress_values (run_search_pipeline chat_sessions scrape ev ar co cid) \<in>
       {[], [20, 50] @ vsE @ [70] @ vsA @ [85] @ vsC @ [100]} \<and>
     sorted vsE \<and> (\<forall>v\<in>set vsE. 50 \<le> v \<and> v \<le> 70) \<and>
     sorted vsA \<and> (\<forall>v\<in>set vsA. 70 \<le> v \<and> v \<le> 85) \<and>
     sorted vsC \<and> (\<forall>v\<in>set vsC. 85 \<le> v \<and> v \<le> 95)"
proof (cases "chat_sessions cid")
  case None
  then have "progress_values (run_search_pipeline chat_sessions scrape ev ar co cid) = []"
    by (simp add: run_search_pipeline_def)
  then show ?thesis by (intro exI [of _ "[]"]) simp
next
  case (Some chat_session)
  show ?thesis
  proof (cases "preferences chat_session")
    case None
    then have "progress_values (run_search_pipeline chat_sessions scrape ev ar co cid) = []"
      using Some by (simp add: run_search_pipeline_def)
    then show ?thesis by (intro exI [of _ "[]"]) simp
  next
    case (Some prefs)
    define ls where "ls = search_all_platforms (scrape prefs)"
    define E where "E = evaluate_loop ev prefs (length ls) (enumerate_py ls)"
    define A where "A = argue_loop ar prefs (length (fst E)) (enumerate_py (fst E))"
    define C where "C = compile_loop co prefs (length (fst A)) (enumerate_py (fst A))"
    let ?vsE = "progress_values (snd E)"
    let ?vsA = "progress_values (snd A)"
    let ?vsC = "progress_values (snd C)"
    have run: "progress_values (run_search_pipeline chat_sessions scrape ev ar co cid) =
        [20, 50] @ ?vsE @ [70] @ ?vsA @ [85] @ ?vsC @ [100]"
      using run_search_pipeline_ok [where chat_sessions = chat_sessions and cid = cid
          and chat_session = chat_session and prefs = prefs and scrape = scrape
          and ev = ev and ar = ar and co = co] \<open>chat_sessions cid = Some chat_session\<close> Some
      by (simp add: ls_def E_def A_def C_def)
    have bE: "\<forall>p\<in>set (enumerate_py ls). fst p < length ls" by (simp add: enumerate_bound)
    have bA: "\<forall>p\<in>set (enumerate_py (fst E)). fst p < length (fst E)" by (simp add: enumerate_bound)
    have bC: "\<forall>p\<in>set (enumerate_py (fst A)). fst p < length (fst A)" by (simp add: enumerate_bound)
    have "sorted ?vsE" "\<forall>v\<in>set ?vsE. 50 \<le> v \<and> v \<le> 70"
      using stage_values_sorted [where ps = "enumerate_py ls" and c = 20 and b = 50
          and n = "length ls" and P = "\<lambda>p. ev (snd p) prefs \<noteq> None", OF enumerate_sorted]
        stage_values_bounds [where ps = "enumerate_py ls" and c = 20 and b = 50
          and n = "length ls" and P = "\<lambda>p. ev (snd p) prefs \<noteq> None", OF bE]
      unfolding E_def evaluate_loop_writes by simp_all
    moreover have "sorted ?vsA" "\<forall>v\<in>set ?vsA. 70 \<le> v \<and> v \<le> 85"
      using stage_values_sorted [where ps = "enumerate_py (fst E)" and c = 15 and b = 70
          and n = "length (fst E)"
          and P = "\<lambda>p. ar (fst (snd p)) (snd (snd p)) prefs \<noteq> None", OF enumerate_sorted]
        stage_values_bounds [where ps = "enumerate_py (fst E)" and c = 15 and b = 70
          and n = "length (fst E)"
          and P = "\<lambda>p. ar (fst (snd p)) (snd (snd p)) prefs \<noteq> None", OF bA]
      unfolding A_def argue_loop_writes by simp_all
    moreover have "sorted ?vsC" "\<forall>v\<in>set ?vsC. 85 \<le> v \<and> v \<le> 95"
      using stage_values_sorted [where ps = "enumerate_py (fst A)" and c = 10 and b = 85
          and n = "length (fst A)"
          and P = "\<lambda>p. co (fst (snd p)) (fst (snd (snd p))) (snd (snd (snd p))) prefs \<noteq> None",
          OF enumerate_sorted]
        stage_values_bounds [where ps = "enumerate_py (fst A)" and c = 10 and b = 85
          and n = "length (fst A)"
          and P = "\<lambda>p. co (fst (snd p)) (fst (snd (snd p))) (snd (snd (snd p))) prefs \<noteq> None",
          OF bC]
      unfolding C_def compile_loop_writes by simp_all
    ultimately show ?thesis using run by blast
  qed
qed

lemma run_status_values:
  "status_values (run_search_pipeline chat_sessions scrape ev ar co cid) \<in>
     {[Error], [Scraping, Evaluating, Evaluating, Evaluating, Complete]}"
proof (cases "chat_sessions cid")
  case None
  then show ?thesis by (simp add: run_search_pipeline_def)
next
  case (Some chat_session)
  note cs = this
  show ?thesis
  proof (cases "preferences chat_session")
    case None
    then show ?thesis using cs by (simp add: run_search_pipeline_def)
  next
    case (Some prefs)
    show ?thesis
      unfolding run_search_pipeline_ok [where chat_sessions = chat_sessions and cid = cid
          and chat_session = chat_session and prefs = prefs, OF cs Some]
      by (simp add: evaluate_loop_writes argue_loop_writes compile_loop_writes)
  qed
qed

lemma status_apply_writes: "status (apply_writes s ws) = last (status s # status_values ws)"
  unfolding apply_writes_def
proof (induction ws arbitrary: s)
  case Nil
  show ?case by simp
next
  case (Cons w ws)
  show ?case using Cons [of "apply_write s w"] by (cases w) simp_all
qed

lemma listings_apply_writes:
  "\<forall>v. SetListings v \<notin> set ws \<Longrightarrow> listings (apply_writes s ws) = listings s"
  unfolding apply_writes_def
proof (induction ws arbitrary: s)
  case Nil
  show ?case by simp
next
  case (Cons w ws)
  then have "listings (foldl apply_write (apply_write s w) ws) = listings (apply_write s w)"
    by simp
  moreover have "listings (apply_write s w) = listings s" using Cons.prems by (cases w) auto
  ultimately show ?case by simp
qed

lemma apply_writes_append: "apply_writes s (xs @ ys) = apply_writes (apply_writes s xs) ys"
  by (simp add: apply_writes_def)

lemma status_values_none: "\<forall>v. SetStatus v \<notin> set ws \<Longrightarrow> status_values ws = []"
  by (induction ws rule: status_values.induct) auto

text \<open>The assignments of a run: a part that never assigns listings, then the completion block.\<close>

lemma run_shape:
  "\<exists>pre post. run_search_pipeline chat_sessions scrape ev ar co cid = pre @ post \<and>
     (\<forall>v. SetListings v \<notin> set pre) \<and>
     (post = [] \<or> (\<exists>rest. post = SetStatus Complete # rest \<and> (\<forall>v. SetStatus v \<notin> set rest)))"
proof (cases "chat_sessions cid")
  case None
  then have "run_search_pipeline chat_sessions scrape ev ar co cid =
      [SetStatus Error, SetMessage ''Chat session not found''] @ []"
    by (simp add: run_search_pipeline_def)
  then show ?thesis by (intro exI [of _ "[SetStatus Error, SetMessage ''Chat session not found'']"]
      exI [of _ "[]"]) simp
next
  case (Some chat_session)
  note cs = this
  show ?thesis
  proof (cases "preferences chat_session")
    case None
    then have "run_search_pipeline chat_sessions scrape ev ar co cid =
        [SetStatus Error, SetMessage ''No preferences found''] @ []"
      using cs by (simp add: run_search_pipeline_def)
    then show ?thesis by (intro exI [of _ "[SetStatus Error, SetMessage ''No preferences found'']"]
        exI [of _ "[]"]) simp
  next
    case (Some prefs)
    define ls where "ls = search_all_platforms (scrape prefs)"
    define E where "E = evaluate_loop ev prefs (length ls) (enumerate_py ls)"
    define A where "A = argue_loop ar prefs (length (fst E)) (enumerate_py (fst E))"
    define C where "C = compile_loop co prefs (length (fst A)) (enumerate_py (fst A))"
    define pre where "pre =
       [SetStatus Scraping, SetMessage ''Searching real estate platforms...'', SetProgress 20,
        SetStatus Evaluating, SetMessage ''Evaluating listings...'', SetProgress 50]
       @ snd E
       @ [SetStatus Evaluating, SetMessage ''Generating pro/con arguments...'', SetProgress 70]
       @ snd A
       @ [SetStatus Evaluating, SetMessage ''Compiling final reports...'', SetProgress 85]
       @ snd C"
    define rest where "rest =
       [SetMessage ''Analysis complete'', SetProgress 100,
        SetListings ls, SetEvaluated (fst E), SetArgued (fst A),
        SetFinal (sorted_desc final_score (fst C))]"
    have "run_search_pipeline chat_sessions scrape ev ar co cid = pre @ SetStatus Complete # rest"
      unfolding run_search_pipeline_ok [where chat_sessions = chat_sessions and cid = cid
          and chat_session = chat_session and prefs = prefs, OF cs Some]
      by (simp add: pre_def rest_def ls_def E_def A_def C_def)
    moreover have "\<forall>v. SetListings v \<notin> set pre"
      by (auto simp: pre_def E_def A_def C_def evaluate_loop_writes argue_loop_writes
          compile_loop_writes)
    moreover have "\<forall>v. SetStatus v \<notin> set rest" by (simp add: rest_def)
    ultimately show ?thesis by blast
  qed
qed

lemma not_complete_no_listings:
  assumes "status (apply_writes (start_search cid)
      (take k (run_search_pipeline chat_sessions scrape ev ar co cid))) \<noteq> Complete"
  shows "listings (apply_writes (start_search cid)
      (take k (run_search_pipeline chat_sessions scrape ev ar co cid))) = []"
proof -
  let ?ws = "run_search_pipeline chat_sessions scrape ev ar co cid"
  obtain pre post where ws: "?ws = pre @ post" and pre: "\<forall>v. SetListings v \<notin> set pre"
    and post: "post = [] \<or> (\<exists>rest. post = SetStatus Complete # rest \<and> (\<forall>v. SetStatus v \<notin> set rest))"
    using run_shape [of chat_sessions scrape ev ar co cid] by blast
  have tk: "take k ?ws = take k pre @ take (k - length pre) post" by (simp add: ws)
  have "take (k - length pre) post = []"
  proof (rule ccontr)
    assume ne: "take (k - length pre) post \<noteq> []"
    then obtain rest where p: "post = SetStatus Complete # rest" and r: "\<forall>v. SetStatus v \<notin> set rest"
      using post by auto
    from ne obtain j where j: "k - length pre = Suc j" by (cases "k - length pre") auto
    have "\<forall>v. SetStatus v \<notin> set (take j rest)" using r by (meson in_set_takeD)
    then have "status_values (take j rest) = []" by (rule status_values_none)
    then have "status_values (take k ?ws) = status_values (take k pre) @ [Complete]"
      by (simp add: tk p j)
    then have "status (apply_writes (start_search cid) (take k ?ws)) = Complete"
      by (simp add: status_apply_writes)
    with assms show False by simp
  qed
  then have "take k ?ws = take k pre" using tk by simp
  moreover have "\<forall>v. SetListings v \<notin> set (take k pre)" using pre by (meson in_set_takeD)
  ultimately show ?thesis by (simp add: listings_apply_writes start_search_def)
qed

lemma complete_listings:
  assumes "chat_sessions cid = Some chat_session" and "preferences chat_session = Some prefs"
  shows "status (apply_writes (start_search cid)
            (run_search_pipeline chat_sessions scrape ev ar co cid)) = Complete"
    and "listings (apply_writes (start_search cid)
            (run_search_pipeline chat_sessions scrape ev ar co cid)) =
         search_all_platforms (scrape prefs)"
  unfolding run_search_pipeline_ok [where chat_sessions = chat_sessions and cid = cid
          and chat_session = chat_session and prefs = prefs, OF assms]
  by (simp_all add: apply_writes_def)

lemma enumerate_filter_snd:
  "map snd (filter (\<lambda>p. P (snd p)) (enumerate_py xs)) = filter P xs"
proof -
  have "map snd (filter (\<lambda>p. P (snd p)) (enumerate_py xs)) = filter P (map snd (enumerate_py xs))"
    by (simp add: filter_map comp_def)
  then show ?thesis by (simp add: enumerate_snd)
qed

lemma evaluated_items:
  "fst (evaluate_loop ev prefs n (enumerate_py ls)) =
   map (\<lambda>l. (l, the (ev l prefs))) (filter (\<lambda>l. ev l prefs \<noteq> None) ls)"
proof -
  have "fst (evaluate_loop ev prefs n (enumerate_py ls)) =
      map (\<lambda>l. (l, the (ev l prefs))) (map snd (filter (\<lambda>p. ev (snd p) prefs \<noteq> None) (enumerate_py ls)))"
    by (simp add: evaluate_loop_items comp_def)
  then show ?thesis
    by (simp only: enumerate_filter_snd [where P = "\<lambda>l. ev l prefs \<noteq> None"])
qed

lemma argued_items:
  "fst (argue_loop ar prefs n (enumerate_py es)) =
   map (\<lambda>q. (fst q, snd q, the (ar (fst q) (snd q) prefs)))
     (filter (\<lambda>q. ar (fst q) (snd q) prefs \<noteq> None) es)"
proof -
  have "fst (argue_loop ar prefs n (enumerate_py es)) =
      map (\<lambda>q. (fst q, snd q, the (ar (fst q) (snd q) prefs)))
        (map snd (filter (\<lambda>p. ar (fst (snd p)) (snd (snd p)) prefs \<noteq> None) (enumerate_py es)))"
    by (simp add: argue_loop_items comp_def)
  then show ?thesis
    by (simp only: enumerate_filter_snd [where P = "\<lambda>q. ar (fst q) (snd q) prefs \<noteq> None"])
qed

lemma compiled_items:
  "fst (compile_loop co prefs n (enumerate_py as)) =
   map (\<lambda>q. the (co (fst q) (fst (snd q)) (snd (snd q)) prefs))
     (filter (\<lambda>q. co (fst q) (fst (snd q)) (snd (snd q)) prefs \<noteq> None) as)"
proof -
  have "fst (compile_loop co prefs n (enumerate_py as)) =
      map (\<lambda>q. the (co (fst q) (fst (snd q)) (snd (snd q)) prefs))
        (map snd (filter (\<lambda>p. co (fst (snd p)) (fst (snd (snd p))) (snd (snd (snd p))) prefs \<noteq> None)
           (enumerate_py as)))"
    by (simp add: compile_loop_items comp_def)
  then show ?thesis
    by (simp only: enumerate_filter_snd
        [where P = "\<lambda>q. co (fst q) (fst (snd q)) (snd (snd q)) prefs \<noteq> None"])
qed

lemma insort_desc_length: "length (insort_desc k x xs) = Suc (length xs)"
  by (induction xs) simp_all

lemma sorted_desc_length: "length (sorted_desc k xs) = length xs"
  by (induction xs) (simp_all add: sorted_desc_def insort_desc_length)

lemma compiled_count:
  "length (fst (compile_loop co prefs n3 (enumerate_py
      (fst (argue_loop ar prefs n2 (enumerate_py
        (fst (evaluate_loop ev prefs n1 (enumerate_py ls)))))))))
   = length (filter (survives ev ar co prefs) ls)"
proof -
  have "length (fst (compile_loop co prefs n3 (enumerate_py
      (fst (argue_loop ar prefs n2 (enumerate_py
        (fst (evaluate_loop ev prefs n1 (enumerate_py ls)))))))))
    = length (filter (\<lambda>l. ev l prefs \<noteq> None \<and> ar l (the (ev l prefs)) prefs \<noteq> None \<and>
         co l (the (ev l prefs)) (the (ar l (the (ev l prefs)) prefs)) prefs \<noteq> None) ls)"
    unfolding compiled_items argued_items evaluated_items
    by (simp add: filter_map comp_def conj_commute conj_left_commute)
  also have "\<dots> = length (filter (survives ev ar co prefs) ls)"
    by (intro arg_cong [where f = length] filter_cong refl)
      (auto simp: survives_def split: option.splits)
  finally show ?thesis .
qed

lemma combine_results_all_failed:
  "\<forall>r\<in>set rs. \<forall>xs. r \<noteq> Listings xs \<Longrightarrow> combine_results rs = []"
  by (induction rs rule: combine_results.induct) auto

subsection \<open>Claims about the Pipeline Coordinator\<close>

text \<open>
  C5: over the sessions a poller can read during one run, from the session that
  \<open>start_search\<close> creates on, the progress values are non-decreasing and lie in
  \<open>[0, 100]\<close>, and each status follows the previous one by a step of the state machine:
  it stays, moves forward along \<open>pending, scraping, evaluating, complete\<close>, or jumps to
  \<open>error\<close>; no earlier status comes back.
\<close>

theorem progress_monotone_status_forward:
  "sorted (map progress (observable (start_search cid)
      (run_search_pipeline chat_sessions scrape ev ar co cid))) \<and>
   (\<forall>s\<in>set (observable (start_search cid)
      (run_search_pipeline chat_sessions scrape ev ar co cid)). 0 \<le> progress s \<and> progress s \<le> 100) \<and>
   successively status_step (map status (observable (start_search cid)
      (run_search_pipeline chat_sessions scrape ev ar co cid)))"
proof -
  let ?ws = "run_search_pipeline chat_sessions scrape ev ar co cid"
  let ?s0 = "start_search cid"
  obtain vsE vsA vsC where
    pv: "progress_values ?ws \<in> {[], [20, 50] @ vsE @ [70] @ vsA @ [85] @ vsC @ [100]}" and
    b: "sorted vsE" "\<forall>v\<in>set vsE. 50 \<le> v \<and> v \<le> 70"
       "sorted vsA" "\<forall>v\<in>set vsA. 70 \<le> v \<and> v \<le> 85"
       "sorted vsC" "\<forall>v\<in>set vsC. 85 \<le> v \<and> v \<le> 95"
    using run_progress_values [of chat_sessions scrape ev ar co cid] by blast
  have p0: "progress ?s0 = 0" by (simp add: start_search_def)
  have srt: "sorted (progress ?s0 # progress_values ?ws)"
    and rng: "\<forall>v\<in>set (progress ?s0 # progress_values ?ws). 0 \<le> v \<and> v \<le> 100"
    using pv staged_sorted [OF b] unfolding p0 by auto
  have 1: "sorted (map progress (observable ?s0 ?ws))"
    using srt by (rule observable_progress_sorted)
  have 2: "\<forall>s\<in>set (observable ?s0 ?ws). 0 \<le> progress s \<and> progress s \<le> 100"
  proof
    fix s assume "s \<in> set (observable ?s0 ?ws)"
    then have "progress s \<in> set (map progress (observable ?s0 ?ws))" by simp
    then have "progress s \<in> set (progress ?s0 # progress_values ?ws)"
      using observable_progress_set [of ?s0 ?ws] by auto
    then show "0 \<le> progress s \<and> progress s \<le> 100" using rng by blast
  qed
  have "successively status_step (status ?s0 # status_values ?ws)"
    using run_status_values [of chat_sessions scrape ev ar co cid]
    by (auto simp: start_search_def)
  then have 3: "successively status_step (map status (observable ?s0 ?ws))"
    by (rule observable_status_steps)
  from 1 2 3 show ?thesis by blast
qed

theorem progress_monotone_status_forward_witness:
  "sorted (map progress (observable (start_search ''chat-1'') sample_run)) \<and>
   map progress (observable (start_search ''chat-1'') (take 10 sample_run)) =
     [0, 0, 0, 20, 20, 20, 50, 54, 58, 66, 70] \<and>
   successively status_step (map status (observable (start_search ''chat-1'') sample_run))"
proof -
  have "map progress (observable (start_search ''chat-1'') (take 10 sample_run)) =
     [0, 0, 0, 20, 20, 20, 50, 54, 58, 66, 70]"
    by code_simp
  then show ?thesis
    using progress_monotone_status_forward [of "''chat-1''" sample_chat_sessions sample_scrape
        sample_evaluate sample_arguments sample_compile]
    by (simp add: sample_run_def)
qed

text \<open>
  C4: when the chat session and its preferences exist, the run ends with status
  \<open>complete\<close> and progress 100, whatever the collaborators do. The number of final reports
  is the number of listings whose three enrichment calls all return; with 5 listings, one
  failing evaluator call and every other call returning, there are exactly 4 final reports.
  When every adapter fails, or every call of one stage fails, the run still ends with
  status \<open>complete\<close> and the downstream collections are empty.
\<close>

theorem per_item_failure_isolation:
  assumes "chat_sessions cid = Some chat_session" and "preferences chat_session = Some prefs"
  shows
  "let s = apply_writes (start_search cid)
             (run_search_pipeline chat_sessions scrape ev ar co cid);
       ls = search_all_platforms (scrape prefs)
   in status s = Complete \<and> progress s = 100 \<and>
      map_option length (final_reports s) = Some (length (filter (survives ev ar co prefs) ls)) \<and>
      (length ls = 5 \<and> length (filter (\<lambda>l. ev l prefs = None) ls) = 1 \<and>
       (\<forall>l e. ar l e prefs \<noteq> None) \<and> (\<forall>l e a. co l e a prefs \<noteq> None)
         \<longrightarrow> map_option length (final_reports s) = Some 4) \<and>
      ((\<forall>r\<in>set (scrape prefs). \<forall>xs. r \<noteq> Listings xs)
         \<longrightarrow> listings s = [] \<and> evaluated_listings s = Some [] \<and>
             argued_listings s = Some [] \<and> final_reports s = Some []) \<and>
      ((\<forall>l\<in>set ls. ev l prefs = None)
         \<longrightarrow> evaluated_listings s = Some [] \<and> argued_listings s = Some [] \<and>
             final_reports s = Some []) \<and>
      ((\<forall>l e. ar l e prefs = None)
         \<longrightarrow> argued_listings s = Some [] \<and> final_reports s = Some []) \<and>
      ((\<forall>l e a. co l e a prefs = None) \<longrightarrow> final_reports s = Some [])"
proof -
  define ls where "ls = search_all_platforms (scrape prefs)"
  define E where "E = fst (evaluate_loop ev prefs (length ls) (enumerate_py ls))"
  define A where "A = fst (argue_loop ar prefs (length E) (enumerate_py E))"
  define C where "C = fst (compile_loop co prefs (length A) (enumerate_py A))"
  define s where "s = apply_writes (start_search cid)
      (run_search_pipeline chat_sessions scrape ev ar co cid)"
  have fields: "status s = Complete" "progress s = 100" "listings s = ls"
    "evaluated_listings s = Some E" "argued_listings s = Some A"
    "final_reports s = Some (sorted_desc final_score C)"
    unfolding s_def run_search_pipeline_ok [where chat_sessions = chat_sessions and cid = cid
          and chat_session = chat_session and prefs = prefs, OF assms]
    by (simp_all add: apply_writes_def ls_def E_def A_def C_def)
  have E: "E = map (\<lambda>l. (l, the (ev l prefs))) (filter (\<lambda>l. ev l prefs \<noteq> None) ls)"
    by (simp add: E_def evaluated_items)
  have A: "A = map (\<lambda>q. (fst q, snd q, the (ar (fst q) (snd q) prefs)))
      (filter (\<lambda>q. ar (fst q) (snd q) prefs \<noteq> None) E)"
    by (simp add: A_def argued_items)
  have C: "C = map (\<lambda>q. the (co (fst q) (fst (snd q)) (snd (snd q)) prefs))
      (filter (\<lambda>q. co (fst q) (fst (snd q)) (snd (snd q)) prefs \<noteq> None) A)"
    by (simp add: C_def compiled_items)
  have count: "length C = length (filter (survives ev ar co prefs) ls)"
    unfolding C_def A_def E_def by (rule compiled_count)
  have scenario: "length C = 4"
    if h: "length ls = 5" "length (filter (\<lambda>l. ev l prefs = None) ls) = 1"
      "\<forall>l e. ar l e prefs \<noteq> None" "\<forall>l e a. co l e a prefs \<noteq> None"
  proof -
    have "length (filter (\<lambda>l. ev l prefs = None) ls) +
        length (filter (\<lambda>l. \<not> ev l prefs = None) ls) = length ls"
      by (rule sum_length_filter_compl)
    then have "length E = 4" using h(1,2) by (simp add: E)
    moreover have "length A = length E" using h(3) by (simp add: A)
    moreover have "length C = length A" using h(4) by (simp add: C)
    ultimately show ?thesis by simp
  qed
  have adapters: "ls = []" if "\<forall>r\<in>set (scrape prefs). \<forall>xs. r \<noteq> Listings xs"
    using combine_results_all_failed [OF that]
    by (simp add: ls_def search_all_platforms_def deduplicate_listings_def)
  have evals: "E = []" if "\<forall>l\<in>set ls. ev l prefs = None"
    using that by (simp add: E)
  have args: "A = []" if "\<forall>l e. ar l e prefs = None"
    using that by (simp add: A)
  have comps: "C = []" if "\<forall>l e a. co l e a prefs = None"
    using that by (simp add: C)
  have nil: "sorted_desc final_score ([] :: FinalReport list) = []" by (simp add: sorted_desc_def)
  have EA: "E = [] \<Longrightarrow> A = []" by (simp add: A)
  have AC: "A = [] \<Longrightarrow> C = []" by (simp add: C)
  have lE: "ls = [] \<Longrightarrow> E = []" by (simp add: E)
  show ?thesis
    unfolding Let_def s_def [symmetric] ls_def [symmetric] fields
    using count scenario adapters evals args comps nil EA AC lE
    by (simp add: sorted_desc_length)
qed

theorem per_item_failure_isolation_witness:
  "status (apply_writes (start_search ''chat-1'') sample_run) = Complete \<and>
   map_option length (final_reports (apply_writes (start_search ''chat-1'') sample_run)) = Some 4"
proof -
  have cs: "sample_chat_sessions ''chat-1'' =
      Some \<lparr>session_id = ''chat-1'', preferences = Some sample_preferences,
            preferences_complete = True\<rparr>"
    by (simp add: sample_chat_sessions_def)
  have n: "length (search_all_platforms (sample_scrape sample_preferences)) = 5"
    by code_simp
  have f: "length (filter (\<lambda>l. sample_evaluate l sample_preferences = None)
      (search_all_platforms (sample_scrape sample_preferences))) = 1"
    by code_simp
  have a: "\<forall>l e. sample_arguments l e sample_preferences \<noteq> None"
    by (simp add: sample_arguments_def)
  have c: "\<forall>l e a. sample_compile l e a sample_preferences \<noteq> None"
    by (simp add: sample_compile_def)
  show ?thesis
    using per_item_failure_isolation [where chat_sessions = sample_chat_sessions
        and cid = "''chat-1''" and prefs = sample_preferences and scrape = sample_scrape
        and ev = sample_evaluate and ar = sample_arguments and co = sample_compile, OF cs]
      n f a c
    by (simp add: Let_def sample_run_def)
qed


text \<open>
  C2, as stated, expects a status read during the evaluating stages to report the number
  of listings the collector returned. On the sample run the collector returns 5 listings,
  and the read taken while the first evaluator call is pending reports 0.
\<close>

theorem listings_found_while_evaluating_counterexample:
  "length (search_all_platforms (sample_scrape sample_preferences)) = 5 \<and>
   get_search_status sample_evaluating_sessions ''search-1'' =
     Inr \<lparr>resp_status = Evaluating, resp_progress = 50,
          resp_message = ''Evaluating listings...'', listings_found = 0,
          listings_evaluated = 0\<rparr>"
  by code_simp

text \<open>
  C2 (amended): the status projection is a function of the stored session alone. The run
  assigns the session's \<open>listings\<close> only in its completion block, so a read of any
  session the run has produced reports \<open>listingsFound = 0\<close> as long as the status is not
  \<open>complete\<close>; once the run has finished, the status is \<open>complete\<close> and \<open>listingsFound\<close>
  is the number of deduplicated listings the collector returned.
\<close>

theorem listings_found_only_when_complete:
  assumes "search_sessions sid = Some (apply_writes (start_search cid)
     (take k (run_search_pipeline chat_sessions scrape ev ar co cid)))"
  shows "\<exists>r. get_search_status search_sessions sid = Inr r \<and>
     (resp_status r \<noteq> Complete \<longrightarrow> listings_found r = 0) \<and>
     (\<forall>chat_session prefs.
        chat_sessions cid = Some chat_session \<and> preferences chat_session = Some prefs \<and>
        length (run_search_pipeline chat_sessions scrape ev ar co cid) \<le> k
        \<longrightarrow> resp_status r = Complete \<and>
            listings_found r = length (search_all_platforms (scrape prefs)))"
proof -
  let ?ws = "run_search_pipeline chat_sessions scrape ev ar co cid"
  let ?s = "apply_writes (start_search cid) (take k ?ws)"
  define r where "r = \<lparr>resp_status = status ?s, resp_progress = progress ?s,
     resp_message = message ?s, listings_found = length (listings ?s),
     listings_evaluated = length (case evaluated_listings ?s of None \<Rightarrow> [] | Some es \<Rightarrow> es)\<rparr>"
  have get: "get_search_status search_sessions sid = Inr r"
    using assms by (simp add: get_search_status_def r_def)
  have early: "listings_found r = 0" if "resp_status r \<noteq> Complete"
  proof -
    from that have "status ?s \<noteq> Complete" by (simp add: r_def)
    then have "listings ?s = []" by (rule not_complete_no_listings)
    then show ?thesis by (simp add: r_def)
  qed
  have late: "resp_status r = Complete \<and>
      listings_found r = length (search_all_platforms (scrape prefs))"
    if "chat_sessions cid = Some chat_session" "preferences chat_session = Some prefs"
      "length ?ws \<le> k" for chat_session prefs
  proof -
    have "take k ?ws = ?ws" using that(3) by simp
    then show ?thesis
      using complete_listings [where chat_sessions = chat_sessions and cid = cid
          and chat_session = chat_session and prefs = prefs and scrape = scrape and ev = ev
          and ar = ar and co = co, OF that(1,2)]
      by (simp add: r_def)
  qed
  from get early late show ?thesis by blast
qed

theorem listings_found_only_when_complete_witness:
  "(\<exists>r. get_search_status sample_evaluating_sessions ''search-1'' = Inr r \<and>
        resp_status r = Evaluating \<and> listings_found r = 0) \<and>
   (\<exists>r. get_search_status sample_finished_sessions ''search-1'' = Inr r \<and>
        resp_status r = Complete \<and> listings_found r = 5)"
proof -
  have cs: "sample_chat_sessions ''chat-1'' =
      Some \<lparr>session_id = ''chat-1'', preferences = Some sample_preferences,
            preferences_complete = True\<rparr>"
    by (simp add: sample_chat_sessions_def)
  have n: "length (search_all_platforms (sample_scrape sample_preferences)) = 5"
    by code_simp
  have len: "length sample_run \<le> 100" by code_simp
  have st: "status (apply_writes (start_search ''chat-1'') (take 6 sample_run)) = Evaluating"
    by code_simp
  have e: "sample_evaluating_sessions ''search-1'' =
      Some (apply_writes (start_search ''chat-1'') (take 6 sample_run))"
    by (simp add: sample_evaluating_sessions_def)
  have f: "sample_finished_sessions ''search-1'' =
      Some (apply_writes (start_search ''chat-1'') (take 100 sample_run))"
    by (simp add: sample_finished_sessions_def)
  obtain r where r: "get_search_status sample_evaluating_sessions ''search-1'' = Inr r"
      "resp_status r \<noteq> Complete \<longrightarrow> listings_found r = 0"
    using listings_found_only_when_complete [where search_sessions = sample_evaluating_sessions
        and sid = "''search-1''" and cid = "''chat-1''" and k = 6
        and chat_sessions = sample_chat_sessions and scrape = sample_scrape
        and ev = sample_evaluate and ar = sample_arguments and co = sample_compile,
        OF e [unfolded sample_run_def]] by blast
  have "resp_status r = Evaluating"
    using r(1) e st by (auto simp: get_search_status_def)
  with r have 1: "\<exists>r. get_search_status sample_evaluating_sessions ''search-1'' = Inr r \<and>
        resp_status r = Evaluating \<and> listings_found r = 0"
    by simp
  have 2: "\<exists>r. get_search_status sample_finished_sessions ''search-1'' = Inr r \<and>
        resp_status r = Complete \<and> listings_found r = 5"
    using listings_found_only_when_complete [where search_sessions = sample_finished_sessions
        and sid = "''search-1''" and cid = "''chat-1''" and k = 100
        and chat_sessions = sample_chat_sessions and scrape = sample_scrape
        and ev = sample_evaluate and ar = sample_arguments and co = sample_compile,
        OF f [unfolded sample_run_def]] cs n
      len [unfolded sample_run_def]
    by fastforce
  from 1 2 show ?thesis by blast
qed


section \<open>Results: Feedback Learner\<close>

subsection \<open>Auxiliary facts\<close>

lemma weighted_sum_loop_sum:
  "weighted_sum_loop weights acc features =
   acc + (\<Sum>(f, v)\<leftarrow>features. case map_of weights f of None \<Rightarrow> 0 | Some w \<Rightarrow> w * v)"
  by (induction features arbitrary: acc) (auto split: option.splits simp: mult.commute)

lemma mset_insort_desc: "mset (insort_desc k x xs) = add_mset x (mset xs)"
  by (induction xs) simp_all

lemma mset_sorted_desc: "mset (sorted_desc k xs) = mset xs"
  by (induction xs) (simp_all add: sorted_desc_def mset_insort_desc)

lemma set_sorted_desc: "set (sorted_desc k xs) = set xs"
  using mset_sorted_desc [of k xs] by (metis set_mset_mset)






lemma set_get_ranked_listings: "set (get_ranked_listings svc sid reports) = set reports"
proof -
  have "set (map snd (sorted_desc fst (map (\<lambda>r. (f r, r)) reports))) = set reports" for f :: "FinalReport \<Rightarrow> real"
    by (simp add: set_sorted_desc image_image)
  then show ?thesis
    by (simp add: get_ranked_listings_def set_sorted_desc split: option.splits)
qed

lemma upsert_keys:
  "map fst (upsert k v xs) = (if k \<in> fst ` set xs then map fst xs else map fst xs @ [k])"
proof (induction xs)
  case Nil
  show ?case by simp
next
  case (Cons e xs)
  obtain k' v' where e: "e = (k', v')" by (cases e)
  show ?case using Cons by (cases "k' = k") (simp_all add: e)
qed

lemma upsert_distinct: "distinct (map fst xs) \<Longrightarrow> distinct (map fst (upsert k v xs))"
  by (simp add: upsert_keys)

lemma upsert_set: "set (upsert k v xs) \<subseteq> insert (k, v) (set xs)"
proof (induction xs)
  case Nil
  show ?case by simp
next
  case (Cons e xs)
  obtain k' v' where e: "e = (k', v')" by (cases e)
  show ?case using Cons by (cases "k' = k") (auto simp: e)
qed

lemma upsert_filter_single:
  assumes "distinct (map fst xs)" and "P v" and "\<forall>e\<in>set xs. P (snd e) \<longrightarrow> fst e = k"
  shows "filter (\<lambda>e. P (snd e)) (upsert k v xs) = [(k, v)]"
  using assms
proof (induction xs)
  case Nil
  then show ?case by simp
next
  case (Cons e xs)
  show ?case
  proof (cases "fst e = k")
    case True
    have "\<forall>e'\<in>set xs. \<not> P (snd e')"
    proof
      fix e' assume e': "e' \<in> set xs"
      have "fst e' \<in> fst ` set xs" using e' by simp
      moreover have "k \<notin> fst ` set xs" using Cons.prems(1) True by simp
      ultimately have "fst e' \<noteq> k" by metis
      then show "\<not> P (snd e')" using Cons.prems(3) e' by auto
    qed
    then have "filter (\<lambda>e. P (snd e)) xs = []" by (simp add: filter_empty_conv)
    then show ?thesis using True Cons.prems(2) by (cases e) simp
  next
    case False
    then have "\<not> P (snd e)" using Cons.prems(3) by auto
    moreover have "filter (\<lambda>e. P (snd e)) (upsert k v xs) = [(k, v)]"
      using Cons by auto
    ultimately show ?thesis using False by (cases e) simp
  qed
qed


lemma filter_at_most_one:
  assumes "distinct (map fst xs)" and "\<forall>e\<in>set xs. Q e \<longrightarrow> fst e = k"
  shows "length (filter Q xs) \<le> 1"
  using assms
proof (induction xs)
  case Nil
  then show ?case by simp
next
  case (Cons e xs)
  show ?case
  proof (cases "Q e")
    case True
    then have k: "fst e = k" using Cons.prems(2) by simp
    have "\<forall>e'\<in>set xs. \<not> Q e'"
    proof
      fix e' assume e': "e' \<in> set xs"
      have "fst e' \<in> fst ` set xs" using e' by simp
      moreover have "k \<notin> fst ` set xs" using Cons.prems(1) k by simp
      ultimately have "fst e' \<noteq> k" by metis
      then show "\<not> Q e'" using Cons.prems(2) e' by auto
    qed
    then have "filter Q xs = []" by (simp add: filter_empty_conv)
    then show ?thesis using True by simp
  next
    case False
    then show ?thesis using Cons by simp
  qed
qed

lemma extract_features_names: "map fst (extract_features l r) = feature_names"
  by (simp add: extract_features_def feature_names_def)

lemma update_preference_weights_feedback:
  "feedback_collection (snd (update_preference_weights np sid svc)) = feedback_collection svc"
  by (simp add: update_preference_weights_def Let_def split: sum.splits)

lemma update_preference_weights_ids:
  "distinct (map fst (preference_weights_collection svc)) \<Longrightarrow>
   distinct (map fst (preference_weights_collection (snd (update_preference_weights np sid svc))))"
  by (simp add: update_preference_weights_def Let_def upsert_distinct split: sum.splits)

lemma record_feedback_feedback:
  "feedback_collection (snd (record_feedback np fb l r svc)) =
   upsert (fb_session_id fb @ ''_'' @ fb_listing_id fb)
     (\<lparr>doc_session_id = fb_session_id fb, doc_listing_id = fb_listing_id fb,
       doc_action = fb_action fb, doc_features = extract_features l r\<rparr>,
      \<lparr>md_session_id = fb_session_id fb, md_listing_id = fb_listing_id fb,
       md_action = fb_action fb, md_price = price l, md_bedrooms = bedrooms l,
       md_bathrooms = bathrooms l, md_sqft = sqft l, md_final_score = final_score r\<rparr>)
     (feedback_collection svc)"
  by (simp add: record_feedback_def Let_def update_preference_weights_feedback)

lemma record_feedback_ok:
  assumes "service_ok svc"
  shows "service_ok (snd (record_feedback np fb l r svc))"
proof -
  let ?svc = "snd (record_feedback np fb l r svc)"
  have 1: "distinct (map fst (feedback_collection ?svc))"
    using assms by (simp add: record_feedback_feedback upsert_distinct service_ok_def)
  have 2: "distinct (map fst (preference_weights_collection ?svc))"
    using assms
    by (simp add: record_feedback_def Let_def update_preference_weights_ids service_ok_def)
  have 3: "\<forall>entry\<in>set (feedback_collection ?svc).
        fst entry = md_session_id (snd (snd entry)) @ ''_'' @ md_listing_id (snd (snd entry)) \<and>
        map fst (doc_features (fst (snd entry))) = feature_names"
  proof
    fix entry assume "entry \<in> set (feedback_collection ?svc)"
    then consider "entry \<in> set (feedback_collection svc)"
      | "entry = (fb_session_id fb @ ''_'' @ fb_listing_id fb,
     \<lparr>doc_session_id = fb_session_id fb, doc_listing_id = fb_listing_id fb,
       doc_action = fb_action fb, doc_features = extract_features l r\<rparr>,
      \<lparr>md_session_id = fb_session_id fb, md_listing_id = fb_listing_id fb,
       md_action = fb_action fb, md_price = price l, md_bedrooms = bedrooms l,
       md_bathrooms = bathrooms l, md_sqft = sqft l, md_final_score = final_score r\<rparr>)"
      unfolding record_feedback_feedback using upsert_set by fastforce
    then show "fst entry = md_session_id (snd (snd entry)) @ ''_'' @ md_listing_id (snd (snd entry)) \<and>
        map fst (doc_features (fst (snd entry))) = feature_names"
    proof cases
      case 1
      then show ?thesis using assms by (simp add: service_ok_def)
    next
      case 2
      then show ?thesis by (simp add: extract_features_names)
    qed
  qed
  from 1 2 3 show ?thesis by (simp add: service_ok_def)
qed

lemma replay_ok: "service_ok svc \<Longrightarrow> service_ok (replay np svc calls)"
proof (induction calls arbitrary: svc)
  case Nil
  then show ?case by simp
next
  case (Cons c calls)
  obtain fb l r where c: "c = (fb, l, r)" by (cases c) auto
  show ?case using Cons.IH [OF record_feedback_ok [OF Cons.prems, of np fb l r]] by (simp add: c)
qed

lemma empty_service_ok: "service_ok empty_service"
  by (simp add: service_ok_def empty_service_def)

lemma events_for_pair_at_most_one:
  assumes "service_ok svc"
  shows "length (events_for_pair svc sid lid) \<le> 1"
  unfolding events_for_pair_def
proof (rule filter_at_most_one [where k = "sid @ ''_'' @ lid"])
  show "distinct (map fst (feedback_collection svc))" using assms by (simp add: service_ok_def)
  show "\<forall>e\<in>set (feedback_collection svc).
      md_session_id (snd (snd e)) = sid \<and> md_listing_id (snd (snd e)) = lid \<longrightarrow>
      fst e = sid @ ''_'' @ lid"
    using assms by (auto simp: service_ok_def)
qed

lemma record_feedback_single_event:
  assumes "service_ok svc"
  shows "map (\<lambda>entry. md_action (snd (snd entry)))
      (events_for_pair (snd (record_feedback np fb l r svc)) (fb_session_id fb) (fb_listing_id fb)) =
    [fb_action fb]"
proof -
  let ?k = "fb_session_id fb @ ''_'' @ fb_listing_id fb"
  let ?v = "(\<lparr>doc_session_id = fb_session_id fb, doc_listing_id = fb_listing_id fb,
       doc_action = fb_action fb, doc_features = extract_features l r\<rparr>,
      \<lparr>md_session_id = fb_session_id fb, md_listing_id = fb_listing_id fb,
       md_action = fb_action fb, md_price = price l, md_bedrooms = bedrooms l,
       md_bathrooms = bathrooms l, md_sqft = sqft l, md_final_score = final_score r\<rparr>)"
  let ?P = "\<lambda>v :: FeedbackDocument \<times> FeedbackMetadata.
      md_session_id (snd v) = fb_session_id fb \<and> md_listing_id (snd v) = fb_listing_id fb"
  have "filter (\<lambda>e. ?P (snd e)) (upsert ?k ?v (feedback_collection svc)) = [(?k, ?v)]"
  proof (rule upsert_filter_single)
    show "distinct (map fst (feedback_collection svc))"
      using assms by (simp add: service_ok_def)
    show "?P ?v" by simp
    show "\<forall>e\<in>set (feedback_collection svc). ?P (snd e) \<longrightarrow> fst e = ?k"
      using assms by (auto simp: service_ok_def)
  qed
  then show ?thesis
    by (simp add: events_for_pair_def record_feedback_feedback)
qed












lemma sample_next_listing: "get_next_listing empty_service ''s1'' sample_reports [''l2''] = Some (sample_report ''l4'' ''4 Oak St'' 8)"
  by code_simp











subsection \<open>Claims about the Feedback Learner\<close>

text \<open>
  C1, as stated, clamps the learned adjustment \<open>5 + \<Sum> weight[f] * value[f]\<close> to
  \<open>[0, 10]\<close> before blending. The code blends the unclamped adjustment and clamps once:
  for the sample features (final score 2) and weights the adjustment is 21.5, the code
  returns 7.85 and the formula of the claim gives 4.4.
\<close>

theorem personalized_score_inner_clamp_counterexample:
  "calculate_personalized_score sample_features sample_weights = 157 / 20 \<and>
   spec_personalized_score sample_features sample_weights = 22 / 5"
  by code_simp

text \<open>
  C1 (amended): the personalized score is
  \<open>clamp(0.7 * final_score + 0.3 * (5 + \<Sum> weight[f] * value[f]), 0, 10)\<close>, the sum ranging
  over the features that have a weight and \<open>final_score\<close> defaulting to 5: only the whole
  expression is clamped, so the score lies in \<open>[0, 10]\<close>. It agrees with the formula of
  the specification whenever the adjustment already lies in \<open>[0, 10]\<close>.
\<close>

theorem personalized_score_blend:
  "calculate_personalized_score features weights =
     max 0 (min 10
       (0.7 * dict_get features ''final_score'' 5 +
        0.3 * (5 + (\<Sum>(f, v)\<leftarrow>features. case map_of weights f of None \<Rightarrow> 0 | Some w \<Rightarrow> w * v)))) \<and>
   0 \<le> calculate_personalized_score features weights \<and>
   calculate_personalized_score features weights \<le> 10 \<and>
   (0 \<le> 5 + (\<Sum>(f, v)\<leftarrow>features. case map_of weights f of None \<Rightarrow> 0 | Some w \<Rightarrow> w * v) \<and>
    5 + (\<Sum>(f, v)\<leftarrow>features. case map_of weights f of None \<Rightarrow> 0 | Some w \<Rightarrow> w * v) \<le> 10
    \<longrightarrow> calculate_personalized_score features weights = spec_personalized_score features weights)"
  by (simp add: calculate_personalized_score_def spec_personalized_score_def
      weighted_sum_loop_sum Let_def)

theorem personalized_score_blend_witness:
  "calculate_personalized_score sample_features sample_small_weights = 16 / 5 \<and>
   spec_personalized_score sample_features sample_small_weights = 16 / 5"
proof -
  have s: "(\<Sum>(f, v)\<leftarrow>sample_features.
      case map_of sample_small_weights f of None \<Rightarrow> 0 | Some w \<Rightarrow> w * v) = 1"
    by code_simp
  have v: "spec_personalized_score sample_features sample_small_weights = 16 / 5"
    by code_simp
  show ?thesis
    using personalized_score_blend [of sample_features sample_small_weights] s v by simp
qed

text \<open>
  C6: after any sequence of \<open>record_feedback\<close> calls the feedback collection holds at
  most one event per (session id, listing id) pair; recording feedback for a pair leaves
  exactly one event for it, carrying the action just recorded; a like followed by a
  dislike for the same listing in the same session leaves one event with action dislike.
\<close>

theorem feedback_last_write_wins:
  "length (events_for_pair (replay np empty_service calls) sid lid) \<le> 1 \<and>
   map (\<lambda>entry. md_action (snd (snd entry)))
     (events_for_pair (snd (record_feedback np fb l r (replay np empty_service calls)))
        (fb_session_id fb) (fb_listing_id fb)) = [fb_action fb] \<and>
   map (\<lambda>entry. md_action (snd (snd entry)))
     (events_for_pair
        (replay np (replay np empty_service calls)
           [(\<lparr>fb_listing_id = lid, fb_action = Like, fb_session_id = sid\<rparr>, l1, r1),
            (\<lparr>fb_listing_id = lid, fb_action = Dislike, fb_session_id = sid\<rparr>, l2, r2)])
        sid lid) = [Dislike]"
proof -
  have ok: "service_ok (replay np empty_service calls)"
    by (rule replay_ok [OF empty_service_ok])
  have 1: "length (events_for_pair (replay np empty_service calls) sid lid) \<le> 1"
    by (rule events_for_pair_at_most_one [OF ok])
  have 2: "map (\<lambda>entry. md_action (snd (snd entry)))
     (events_for_pair (snd (record_feedback np fb l r (replay np empty_service calls)))
        (fb_session_id fb) (fb_listing_id fb)) = [fb_action fb]"
    by (rule record_feedback_single_event [OF ok])
  let ?like = "\<lparr>fb_listing_id = lid, fb_action = Like, fb_session_id = sid\<rparr>"
  let ?dislike = "\<lparr>fb_listing_id = lid, fb_action = Dislike, fb_session_id = sid\<rparr>"
  have "service_ok (snd (record_feedback np ?like l1 r1 (replay np empty_service calls)))"
    by (rule record_feedback_ok [OF ok])
  then have 3: "map (\<lambda>entry. md_action (snd (snd entry)))
     (events_for_pair
        (replay np (replay np empty_service calls) [(?like, l1, r1), (?dislike, l2, r2)]) sid lid) =
     [Dislike]"
    using record_feedback_single_event [where fb = ?dislike and l = l2 and r = r2
        and svc = "snd (record_feedback np ?like l1 r1 (replay np empty_service calls))"]
    by simp
  from 1 2 3 show ?thesis by blast
qed

theorem feedback_last_write_wins_witness:
  "map (\<lambda>entry. md_action (snd (snd entry)))
     (events_for_pair
        (replay nan_numpy empty_service
           [(\<lparr>fb_listing_id = ''l1'', fb_action = Like, fb_session_id = ''s1''\<rparr>,
             sample_listing ''l1'' ''1 Oak St'', sample_report ''l1'' ''1 Oak St'' 2),
            (\<lparr>fb_listing_id = ''l1'', fb_action = Dislike, fb_session_id = ''s1''\<rparr>,
             sample_listing ''l1'' ''1 Oak St'', sample_report ''l1'' ''1 Oak St'' 2)])
        ''s1'' ''l1'') = [Dislike]"
  using feedback_last_write_wins [where np = nan_numpy and calls = "[]" and sid = "''s1''"
      and lid = "''l1''" and ?l1.0 = "sample_listing ''l1'' ''1 Oak St''"
      and ?r1.0 = "sample_report ''l1'' ''1 Oak St'' 2"
      and ?l2.0 = "sample_listing ''l1'' ''1 Oak St''"
      and ?r2.0 = "sample_report ''l1'' ''1 Oak St'' 2"]
  by simp




text \<open>
  C9: \<open>get_next_listing\<close> only returns a report from the available ones whose listing
  id is not among the seen ids, and it returns \<open>None\<close> exactly when every available
  report's listing id has been seen.
\<close>

theorem next_listing_unseen:
  "(\<forall>r. get_next_listing svc sid available seen = Some r \<longrightarrow>
        r \<in> set available \<and> id (listing r) \<notin> set seen) \<and>
   (get_next_listing svc sid available seen = None \<longleftrightarrow>
      (\<forall>r\<in>set available. id (listing r) \<in> set seen))"
proof -
  define unseen where "unseen = filter (\<lambda>report. id (listing report) \<notin> set seen) available"
  have ranked: "set (get_ranked_listings svc sid unseen) = set unseen"
    by (rule set_get_ranked_listings)
  have empty: "unseen = [] \<longleftrightarrow> (\<forall>r\<in>set available. id (listing r) \<in> set seen)"
    by (auto simp: unseen_def filter_empty_conv)
  show ?thesis
  proof (cases "unseen = []")
    case True
    then have "get_next_listing svc sid available seen = None"
      by (simp add: get_next_listing_def unseen_def)
    then show ?thesis using True empty by simp
  next
    case False
    then have "get_ranked_listings svc sid unseen \<noteq> []" using ranked by auto
    then obtain b rest where br: "get_ranked_listings svc sid unseen = b # rest"
      by (cases "get_ranked_listings svc sid unseen") auto
    then have "b \<in> set unseen" using ranked by auto
    then have b: "b \<in> set available \<and> id (listing b) \<notin> set seen" by (simp add: unseen_def)
    have "get_next_listing svc sid available seen = Some b"
      using False br by (simp add: get_next_listing_def unseen_def [symmetric])
    then show ?thesis using b False empty by simp
  qed
qed

theorem next_listing_unseen_witness:
  "get_next_listing empty_service ''s1'' sample_reports [''l1'', ''l2'', ''l3'', ''l4''] = None \<and>
   get_next_listing empty_service ''s1'' sample_reports [''l2''] =
     Some (sample_report ''l4'' ''4 Oak St'' 8)"
proof -
  have "\<forall>r\<in>set sample_reports. id (listing r) \<in> set [''l1'', ''l2'', ''l3'', ''l4'']"
    by (simp add: sample_reports_def sample_report_def sample_listing_def)
  then show ?thesis
    using next_listing_unseen [of empty_service "''s1''" sample_reports
        "[''l1'', ''l2'', ''l3'', ''l4'']"] sample_next_listing
    by simp
qed

end
